theory Spec2Isabelle
  imports Complex_Main "HOL-Library.AList" "HOL-Library.Char_ord" "HOL-Library.List_Lexorder"
begin

section \<open>Python values used by the program\<close>

text \<open>
  The two scripts, \<^verbatim>\<open>SRC.py\<close> (cache, debouncer, change handler) and \<^verbatim>\<open>SyncRepo.py\<close>
  (the older handler that rebuilds on every accepted event), are embedded function by
  function. Strings are \<^typ>\<open>string\<close>, compared as Python compares \<^verbatim>\<open>str\<close> (character by
  character, lexicographically). Exceptions that the code can raise are values of
  \<open>error\<close>; a function that can raise returns \<open>error + 'a\<close>. The \<^verbatim>\<open>print\<close> calls only
  log and are left out.
\<close>

datatype error = KeyError | ValueError

subsection \<open>The dictionary \<^verbatim>\<open>_file_cache\<close>\<close>

text \<open>
  A Python \<^verbatim>\<open>dict\<close> keeps its keys in insertion order, so the cache is an association
  list: \<^verbatim>\<open>d[k] = v\<close> replaces the value in place when \<open>k\<close> is present and appends
  otherwise, \<^verbatim>\<open>del d[k]\<close> raises \<^verbatim>\<open>KeyError\<close> when \<open>k\<close> is absent, \<^verbatim>\<open>d.clear()\<close> leaves
  the empty dictionary.
\<close>

type_synonym cache = "(string \<times> string) list"

definition dict_keys :: "cache \<Rightarrow> string list" where
  "dict_keys c = map fst c"

definition dict_contains :: "cache \<Rightarrow> string \<Rightarrow> bool" where
  "dict_contains c k = (k \<in> set (dict_keys c))"

definition dict_set :: "cache \<Rightarrow> string \<Rightarrow> string \<Rightarrow> cache" where
  "dict_set c k v = AList.update k v c"

definition dict_del :: "cache \<Rightarrow> string \<Rightarrow> error + cache" where
  "dict_del c k = (if dict_contains c k then Inr (AList.delete k c) else Inl KeyError)"

definition dict_clear :: "cache \<Rightarrow> cache" where
  "dict_clear c = []"

definition dict_get :: "cache \<Rightarrow> string \<Rightarrow> string \<Rightarrow> string" where
  "dict_get c k dflt = (case map_of c k of Some v \<Rightarrow> v | None \<Rightarrow> dflt)"

subsection \<open>The file system as the program observes it\<close>

text \<open>
  \<^verbatim>\<open>os.path.exists(p)\<close> and \<^verbatim>\<open>open(p, 'r', encoding='utf-8').read()\<close> observe the disk.
  A snapshot maps an absolute path to what these calls see: nothing there, something there
  that cannot be read as UTF-8 text (permission, encoding, a directory), or a text.
\<close>

datatype file_state = Missing | Unreadable | Readable string

type_synonym filesystem = "string \<Rightarrow> file_state"

definition path_exists :: "filesystem \<Rightarrow> string \<Rightarrow> bool" where
  "path_exists fs p = (fs p \<noteq> Missing)"

section \<open>RepositoryCache\<close>

text \<open>\<^verbatim>\<open>remove_file\<close>: delete the key when it is present.\<close>

definition remove_file :: "cache \<Rightarrow> string \<Rightarrow> error + cache" where
  "remove_file c relative_path =
     (if dict_contains c relative_path then dict_del c relative_path else Inr c)"

text \<open>
  \<^verbatim>\<open>_read_and_store_file\<close>: the \<^verbatim>\<open>try\<close> block stores the content when the read succeeds;
  every exception is caught and logged, and the dictionary is not touched.
\<close>

definition read_and_store_file :: "filesystem \<Rightarrow> cache \<Rightarrow> string \<Rightarrow> string \<Rightarrow> cache" where
  "read_and_store_file fs c file_path relative_path =
     (case fs file_path of
        Readable content \<Rightarrow> dict_set c relative_path content
      | _ \<Rightarrow> c)"

text \<open>\<^verbatim>\<open>update_file\<close>: a file that is gone is removed from the cache, any other is re-read.\<close>

definition update_file :: "filesystem \<Rightarrow> cache \<Rightarrow> string \<Rightarrow> string \<Rightarrow> error + cache" where
  "update_file fs c file_path relative_path =
     (if \<not> path_exists fs file_path then remove_file c relative_path
      else Inr (read_and_store_file fs c file_path relative_path))"

definition get_all_files_sorted :: "cache \<Rightarrow> string list" where
  "get_all_files_sorted c = sort (dict_keys c)"

definition get_file_content :: "cache \<Rightarrow> string \<Rightarrow> string" where
  "get_file_content c relative_path = dict_get c relative_path []"

section \<open>The rendered document\<close>

text \<open>
  \<^verbatim>\<open>generate_markdown_output\<close>: the loop appends, for each path of the sorted key list,
  the marker line and the fenced content to \<^verbatim>\<open>code_output\<close>; the result is put after
  the tree listing.
\<close>

definition generate_markdown_output :: "cache \<Rightarrow> string \<Rightarrow> string \<Rightarrow> string" where
  "generate_markdown_output repo_cache directory tree_output =
     (let code_output =
            foldl (\<lambda>code_output relative_path.
                     let file_content = get_file_content repo_cache relative_path;
                         code_output = code_output @ ''----- FILE: '' @ relative_path
                                         @ '' -----\<newline>''
                     in code_output @ (''```\<newline>'' @ file_content @ ''\<newline>```\<newline>\<newline>''))
                  [] (get_all_files_sorted repo_cache)
      in ''========== TREE OUTPUT ==========\<newline>'' @
         tree_output @
         ''\<newline>\<newline>========== CODE OUTPUT ==========\<newline>\<newline>'' @
         code_output)"

text \<open>
  The file block as the description of the document format writes it: the marker line
  with the relative path, then the content between two fence lines, then an empty line.
\<close>

definition file_block :: "string \<Rightarrow> string \<Rightarrow> string" where
  "file_block relative_path content =
     ''----- FILE: '' @ relative_path @ '' -----'' @ ''\<newline>'' @
     ''```'' @ ''\<newline>'' @ content @ ''\<newline>'' @ ''```'' @ ''\<newline>'' @ ''\<newline>''"

section \<open>Strings and POSIX paths\<close>

text \<open>
  The program runs on a POSIX system (its output directory is \<^verbatim>\<open>/Users/terry/\<close>), where
  \<^verbatim>\<open>os.path\<close> is \<^verbatim>\<open>posixpath\<close>. The functions of \<^verbatim>\<open>str\<close> and \<^verbatim>\<open>posixpath\<close> that the code
  calls are written out on strings, following the library's own code.
\<close>

definition startswith :: "string \<Rightarrow> string \<Rightarrow> bool" where
  "startswith s p = (take (length p) s = p)"

definition endswith :: "string \<Rightarrow> string \<Rightarrow> bool" where
  "endswith s e = (length e \<le> length s \<and> drop (length s - length e) s = e)"

text \<open>\<^verbatim>\<open>s.split('/')\<close> and \<^verbatim>\<open>'/'.join(xs)\<close>.\<close>

fun split_sep :: "string \<Rightarrow> string list" where
  "split_sep [] = [[]]"
| "split_sep (c # cs) =
     (if c = CHR ''/'' then [] # split_sep cs
      else (case split_sep cs of [] \<Rightarrow> [[c]] | x # xs \<Rightarrow> (c # x) # xs))"

fun sep_join :: "string list \<Rightarrow> string" where
  "sep_join [] = []"
| "sep_join [x] = x"
| "sep_join (x # y # ys) = x @ ''/'' @ sep_join (y # ys)"

text \<open>\<^verbatim>\<open>os.path.basename(p)\<close> is \<^verbatim>\<open>p[p.rfind('/') + 1:]\<close>.\<close>

definition basename :: "string \<Rightarrow> string" where
  "basename p = rev (takeWhile (\<lambda>c. c \<noteq> CHR ''/'') (rev p))"

text \<open>\<^verbatim>\<open>os.path.join(a, b)\<close> with one further component.\<close>

definition path_join :: "string \<Rightarrow> string \<Rightarrow> string" where
  "path_join a b =
     (if startswith b ''/'' then b
      else if a = [] \<or> endswith a ''/'' then a @ b
      else a @ ''/'' @ b)"

text \<open>
  The common leading part of two lists: \<^verbatim>\<open>commonprefix\<close> and \<^verbatim>\<open>commonpath\<close> compare the
  smallest with the largest of their arguments, which for two arguments are these two.
\<close>

fun commonprefix :: "'a list \<Rightarrow> 'a list \<Rightarrow> 'a list" where
  "commonprefix (x # xs) (y # ys) = (if x = y then x # commonprefix xs ys else [])"
| "commonprefix xs ys = []"

text \<open>
  \<^verbatim>\<open>os.path.commonpath([p, q])\<close>: both paths are split at the separator, empty and
  \<^verbatim>\<open>'.'\<close> components are dropped, and the common leading components are joined again;
  mixing an absolute with a relative path raises \<^verbatim>\<open>ValueError\<close>.
\<close>

definition path_components :: "string \<Rightarrow> string list" where
  "path_components p = filter (\<lambda>c. c \<noteq> [] \<and> c \<noteq> ''.'') (split_sep p)"

definition commonpath :: "string \<Rightarrow> string \<Rightarrow> error + string" where
  "commonpath p q =
     (if startswith p ''/'' \<noteq> startswith q ''/'' then Inl ValueError
      else Inr ((if startswith p ''/'' then ''/'' else [])
                @ sep_join (commonprefix (path_components p) (path_components q))))"

text \<open>
  \<^verbatim>\<open>os.path.normpath\<close>: one or two leading slashes are kept (three or more count as one),
  empty and \<^verbatim>\<open>'.'\<close> components are dropped, \<^verbatim>\<open>'..'\<close> removes the component before it.
\<close>

definition initial_slashes :: "string \<Rightarrow> nat" where
  "initial_slashes p =
     (if \<not> startswith p ''/'' then 0
      else if startswith p ''//'' \<and> \<not> startswith p ''///'' then 2
      else 1)"

definition norm_step :: "nat \<Rightarrow> string list \<Rightarrow> string \<Rightarrow> string list" where
  "norm_step slashes new_comps component =
     (if component = [] \<or> component = ''.'' then new_comps
      else if component \<noteq> ''..'' \<or> (slashes = 0 \<and> new_comps = [])
              \<or> (new_comps \<noteq> [] \<and> last new_comps = ''..'')
      then new_comps @ [component]
      else if new_comps \<noteq> [] then butlast new_comps
      else new_comps)"

definition normpath :: "string \<Rightarrow> string" where
  "normpath p =
     (if p = [] then ''.''
      else let slashes = initial_slashes p;
               comps = foldl (norm_step slashes) [] (split_sep p);
               path = replicate slashes CHR ''/'' @ sep_join comps
           in if path = [] then ''.'' else path)"

text \<open>\<^verbatim>\<open>os.path.abspath\<close>, with the working directory that \<^verbatim>\<open>os.getcwd()\<close> returns.\<close>

definition abspath :: "string \<Rightarrow> string \<Rightarrow> string" where
  "abspath cwd p = normpath (if startswith p ''/'' then p else path_join cwd p)"

text \<open>\<^verbatim>\<open>os.path.relpath(path, start)\<close>; an empty path raises \<^verbatim>\<open>ValueError\<close>.\<close>

definition split_tail :: "string \<Rightarrow> string list" where
  "split_tail p = (let tail = dropWhile (\<lambda>c. c = CHR ''/'') p
                    in if tail = [] then [] else split_sep tail)"

definition relpath :: "string \<Rightarrow> string \<Rightarrow> string \<Rightarrow> error + string" where
  "relpath cwd path start =
     (if path = [] then Inl ValueError
      else let start_list = split_tail (abspath cwd start);
               path_list = split_tail (abspath cwd path);
               i = length (commonprefix start_list path_list);
               rel_list = replicate (length start_list - i) ''..'' @ drop i path_list
           in if rel_list = [] then Inr ''.'' else Inr (sep_join rel_list))"

section \<open>The inclusion filter of the scan\<close>

text \<open>
  A regular expression is used only through \<^verbatim>\<open>re.search(pattern, filename)\<close> as a truth
  value, so a pattern is the predicate telling in which strings it finds a match.
\<close>

type_synonym pattern = "string \<Rightarrow> bool"

definition re_search :: "pattern \<Rightarrow> string \<Rightarrow> bool" where
  "re_search pattern s = pattern s"

text \<open>
  \<^verbatim>\<open>RepositoryCache._should_include\<close>. The parameter \<^verbatim>\<open>regex_patterns\<close> may be \<^verbatim>\<open>None\<close>;
  \<^verbatim>\<open>None\<close> and the empty list both skip the regex check.
\<close>

definition should_include ::
  "string \<Rightarrow> string list \<Rightarrow> string list \<Rightarrow> string list \<Rightarrow> pattern list option \<Rightarrow> bool" where
  "should_include filename extensions excludes sensitive_files regex_patterns =
     (if filename \<in> set sensitive_files then False
      else if \<not> list_ex (\<lambda>ext. endswith filename ext) extensions then False
      else if list_ex (\<lambda>exc. endswith filename exc) excludes then False
      else (case regex_patterns of
              None \<Rightarrow> True
            | Some patterns \<Rightarrow> \<not> list_ex (\<lambda>pattern. re_search pattern filename) patterns))"

section \<open>The initial scan\<close>

text \<open>
  What \<^verbatim>\<open>os.walk\<close> finds below the scanned directory: in each directory the entries that
  \<^verbatim>\<open>scandir\<close> lists, in the order in which it lists them. An entry is a file (anything
  that is not a directory), a symbolic link to a directory (listed among the
  directories, never entered), or a directory with its own entries. The texts of the
  files are read from the disk by path.
\<close>

datatype fsnode = FileNode string | LinkNode string | DirNode string "fsnode list"

fun dir_names :: "fsnode list \<Rightarrow> string list" where
  "dir_names [] = []"
| "dir_names (DirNode d es # ns) = d # dir_names ns"
| "dir_names (LinkNode d # ns) = d # dir_names ns"
| "dir_names (FileNode f # ns) = dir_names ns"

fun file_names :: "fsnode list \<Rightarrow> string list" where
  "file_names [] = []"
| "file_names (FileNode f # ns) = f # file_names ns"
| "file_names (n # ns) = file_names ns"

fun lookup_dir :: "string \<Rightarrow> fsnode list \<Rightarrow> fsnode list option" where
  "lookup_dir d [] = None"
| "lookup_dir d (DirNode d' es # ns) = (if d = d' then Some es else lookup_dir d ns)"
| "lookup_dir d (n # ns) = lookup_dir d ns"

text \<open>
  \<^verbatim>\<open>for root, dirs, files in os.walk(top): body\<close>. The generator yields the directory with
  the names of its directories and of its other entries, the loop body runs and may edit
  both lists in place, and the generator then walks into the names that \<^verbatim>\<open>dirs\<close> holds
  now, in that order, joining each to the path of the directory; a name that is no
  directory to be entered is passed over. The body is a function from the state of the
  loop and the triple to the edited lists and the new state. The walk returns the
  triples as the body left them, in the order of the visits, and the final state.
\<close>

type_synonym visit = "string \<times> string list \<times> string list"

function os_walk ::
  "('s \<Rightarrow> string \<Rightarrow> string list \<Rightarrow> string list \<Rightarrow> error + string list \<times> string list \<times> 's)
     \<Rightarrow> string \<Rightarrow> fsnode list \<Rightarrow> 's \<Rightarrow> error + visit list \<times> 's" where
  "os_walk body here entries s =
     (case body s here (dir_names entries) (file_names entries) of
        Inl e \<Rightarrow> Inl e
      | Inr (dirs, files, s1) \<Rightarrow>
          foldl (\<lambda>acc dirname.
                   case acc of
                     Inl e \<Rightarrow> Inl e
                   | Inr (visits, s2) \<Rightarrow>
                       (case lookup_dir dirname entries of
                          None \<Rightarrow> Inr (visits, s2)
                        | Some sub \<Rightarrow>
                            (case os_walk body (path_join here dirname) sub s2 of
                               Inl e \<Rightarrow> Inl e
                             | Inr (visits', s3) \<Rightarrow> Inr (visits @ visits', s3))))
                (Inr ([(here, dirs, files)], s1)) dirs)"
  by pat_completeness auto
termination
proof (relation "measure (\<lambda>(body, here, entries, s). size_list size entries)", goal_cases)
  case 1
  show ?case by simp
next
  case (2 body here entries s b x y xa ya a xaa ba xb yb x2)
  have "lookup_dir d es = Some sub \<Longrightarrow> size_list size sub < size_list size es" for d es sub
    by (induction d es rule: lookup_dir.induct) (auto split: if_splits)
  with 2 show ?case by simp
qed

text \<open>
  The body of the loop in \<^verbatim>\<open>load_initial_cache\<close>: the directories named in
  \<^verbatim>\<open>exclude_dirs\<close> are taken out of \<^verbatim>\<open>dirs\<close>, both lists are sorted, and each file that
  \<^verbatim>\<open>_should_include\<close> accepts is read and stored under its path relative to the scanned
  directory.
\<close>

definition scan_file ::
  "string \<Rightarrow> filesystem \<Rightarrow> string \<Rightarrow> string list \<Rightarrow> string list \<Rightarrow> string list
     \<Rightarrow> pattern list option \<Rightarrow> string \<Rightarrow> cache \<Rightarrow> string \<Rightarrow> error + cache" where
  "scan_file cwd fs directory extensions excludes sensitive_files regex_patterns here c file =
     (if should_include file extensions excludes sensitive_files regex_patterns
      then (let file_path = path_join here file
            in case relpath cwd file_path directory of
                 Inl e \<Rightarrow> Inl e
               | Inr relative_path \<Rightarrow>
                   Inr (read_and_store_file fs c file_path relative_path))
      else Inr c)"

definition scan_body ::
  "string \<Rightarrow> filesystem \<Rightarrow> string \<Rightarrow> string list \<Rightarrow> string list \<Rightarrow> string list \<Rightarrow> string list
     \<Rightarrow> pattern list option
     \<Rightarrow> cache \<Rightarrow> string \<Rightarrow> string list \<Rightarrow> string list
     \<Rightarrow> error + string list \<times> string list \<times> cache" where
  "scan_body cwd fs directory extensions excludes exclude_dirs sensitive_files regex_patterns
     c here dirs files =
     (let dirs = sort (filter (\<lambda>d. d \<notin> set exclude_dirs) dirs);
          files = sort files
      in case foldl (\<lambda>acc file.
                       case acc of
                         Inl e \<Rightarrow> Inl e
                       | Inr c \<Rightarrow> scan_file cwd fs directory extensions excludes
                                   sensitive_files regex_patterns here c file)
                    (Inr c) files of
           Inl e \<Rightarrow> Inl e
         | Inr c' \<Rightarrow> Inr (dirs, files, c'))"

text \<open>
  \<^verbatim>\<open>load_initial_cache\<close>, with the working directory, the disk and the tree that the walk
  finds: the dictionary is cleared, then filled by the walk. \<open>scan\<close> is the walk with its
  visits, \<^verbatim>\<open>load_initial_cache\<close> keeps the dictionary.
\<close>

definition scan ::
  "string \<Rightarrow> filesystem \<Rightarrow> fsnode list \<Rightarrow> cache \<Rightarrow> string \<Rightarrow> string list \<Rightarrow> string list
     \<Rightarrow> string list \<Rightarrow> string list \<Rightarrow> pattern list option \<Rightarrow> error + visit list \<times> cache" where
  "scan cwd fs tree file_cache directory extensions excludes exclude_dirs sensitive_files
     regex_patterns =
     os_walk (scan_body cwd fs directory extensions excludes exclude_dirs sensitive_files
                regex_patterns)
       directory tree (dict_clear file_cache)"

definition load_initial_cache ::
  "string \<Rightarrow> filesystem \<Rightarrow> fsnode list \<Rightarrow> cache \<Rightarrow> string \<Rightarrow> string list \<Rightarrow> string list
     \<Rightarrow> string list \<Rightarrow> string list \<Rightarrow> pattern list option \<Rightarrow> error + cache" where
  "load_initial_cache cwd fs tree file_cache directory extensions excludes exclude_dirs
     sensitive_files regex_patterns =
     (case scan cwd fs tree file_cache directory extensions excludes exclude_dirs
             sensitive_files regex_patterns of
        Inl e \<Rightarrow> Inl e
      | Inr (visits, c) \<Rightarrow> Inr c)"

text \<open>
  Names as a directory listing has them: not empty, without a separator, and neither
  \<^verbatim>\<open>.\<close> nor \<^verbatim>\<open>..\<close>. In a well-formed tree every name is such a name.
\<close>

definition plain_name :: "string \<Rightarrow> bool" where
  "plain_name n = (n \<noteq> [] \<and> CHR ''/'' \<notin> set n \<and> n \<noteq> ''.'' \<and> n \<noteq> ''..'')"

fun plain_node :: "fsnode \<Rightarrow> bool" where
  "plain_node (FileNode f) = plain_name f"
| "plain_node (LinkNode d) = plain_name d"
| "plain_node (DirNode d es) = (plain_name d \<and> list_all plain_node es)"

text \<open>The tree with everything below an excluded directory taken away.\<close>

fun prune :: "string list \<Rightarrow> fsnode \<Rightarrow> fsnode" where
  "prune exclude_dirs (FileNode f) = FileNode f"
| "prune exclude_dirs (LinkNode d) = LinkNode d"
| "prune exclude_dirs (DirNode d es) =
     (if d \<in> set exclude_dirs then DirNode d [] else DirNode d (map (prune exclude_dirs) es))"

text \<open>The directories on the way to a relative path: its components but the last.\<close>

definition parent_dirs :: "string \<Rightarrow> string list" where
  "parent_dirs relative_path = butlast (split_sep relative_path)"

text \<open>
  The scan as the description of \<^verbatim>\<open>loadInitial\<close> words it: a directory is visited with
  the names of its directories that are not excluded and the names of its files, both in
  lexicographic order; then its directories are visited in that order, each before the
  next, and nothing below an excluded directory is visited. The files of the visits are
  read and stored visit by visit, in the order of each visit's file list.
\<close>

function spec_visits :: "string list \<Rightarrow> string \<Rightarrow> fsnode list \<Rightarrow> visit list" where
  "spec_visits exclude_dirs here entries =
     (here, sort (filter (\<lambda>d. d \<notin> set exclude_dirs) (dir_names entries)),
            sort (file_names entries)) #
     concat (map (\<lambda>d. case lookup_dir d entries of
                          None \<Rightarrow> []
                        | Some sub \<Rightarrow> spec_visits exclude_dirs (path_join here d) sub)
                 (sort (filter (\<lambda>d. d \<notin> set exclude_dirs) (dir_names entries))))"
  by pat_completeness auto
termination
proof (relation "measure (\<lambda>(exclude_dirs, here, entries). size_list size entries)", goal_cases)
  case 1
  show ?case by simp
next
  case (2 exclude_dirs here entries d sub)
  have "lookup_dir d es = Some sub \<Longrightarrow> size_list size sub < size_list size es" for d es sub
    by (induction d es rule: lookup_dir.induct) (auto split: if_splits)
  with 2 show ?case by simp
qed

definition store_visit ::
  "string \<Rightarrow> filesystem \<Rightarrow> string \<Rightarrow> string list \<Rightarrow> string list \<Rightarrow> string list
     \<Rightarrow> pattern list option \<Rightarrow> cache \<Rightarrow> visit \<Rightarrow> error + cache" where
  "store_visit cwd fs directory extensions excludes sensitive_files regex_patterns c v =
     (case v of (here, dirs, files) \<Rightarrow>
        foldl (\<lambda>acc file.
                 case acc of
                   Inl e \<Rightarrow> Inl e
                 | Inr c \<Rightarrow> scan_file cwd fs directory extensions excludes
                             sensitive_files regex_patterns here c file)
              (Inr c) files)"

definition store_visits ::
  "string \<Rightarrow> filesystem \<Rightarrow> string \<Rightarrow> string list \<Rightarrow> string list \<Rightarrow> string list
     \<Rightarrow> pattern list option \<Rightarrow> cache \<Rightarrow> visit list \<Rightarrow> error + cache" where
  "store_visits cwd fs directory extensions excludes sensitive_files regex_patterns c visits =
     foldl (\<lambda>acc v.
              case acc of
                Inl e \<Rightarrow> Inl e
              | Inr c \<Rightarrow> store_visit cwd fs directory extensions excludes
                          sensitive_files regex_patterns c v)
           (Inr c) visits"

text \<open>
  A cache none of whose keys lies under an excluded directory, and a visit of the walk
  whose lists are sorted and name no excluded directory.
\<close>

definition keys_outside :: "string list \<Rightarrow> cache \<Rightarrow> bool" where
  "keys_outside exclude_dirs c =
     list_all (\<lambda>k. list_all (\<lambda>d. d \<notin> set exclude_dirs) (parent_dirs k)) (dict_keys c)"

definition visit_sorted :: "string list \<Rightarrow> visit \<Rightarrow> bool" where
  "visit_sorted exclude_dirs v =
     (case v of (here, dirs, files) \<Rightarrow>
        sorted dirs \<and> sorted files \<and> list_all (\<lambda>d. d \<notin> set exclude_dirs) dirs)"

section \<open>Debouncer\<close>

text \<open>
  \<^verbatim>\<open>threading.Timer(interval, function)\<close>, once started, sleeps for the interval and then
  calls the function unless \<^verbatim>\<open>cancel()\<close> has set its \<^verbatim>\<open>finished\<close> flag; after the call the
  flag is set as well. A timer object is therefore the time at which it wakes and that
  flag. Time is the reading of the clock in seconds.

  The debouncer holds its \<^verbatim>\<open>wait_time\<close> and \<^verbatim>\<open>_timer\<close>, a reference into the timer objects
  created so far (they live on in their threads after \<^verbatim>\<open>_timer\<close> is overwritten). The
  callback has no result; \<open>invocations\<close> records when it was called.
\<close>

record Timer =
  wakes_at :: real
  finished :: bool

record Debouncer =
  wait_time :: real
  timer :: "nat option"
  timers :: "Timer list"
  invocations :: "real list"

definition Debouncer_init :: "real \<Rightarrow> Debouncer" where
  "Debouncer_init w = \<lparr>wait_time = w, timer = None, timers = [], invocations = []\<rparr>"

text \<open>What the timer threads have done by the time \<open>now\<close>: each timer that is due and not
  finished has called the callback.\<close>

definition due :: "real \<Rightarrow> Timer \<Rightarrow> bool" where
  "due now t = (\<not> finished t \<and> wakes_at t \<le> now)"

definition run_timers :: "real \<Rightarrow> Debouncer \<Rightarrow> Debouncer" where
  "run_timers now d =
     d\<lparr>timers := map (\<lambda>t. if due now t then t\<lparr>finished := True\<rparr> else t) (timers d),
       invocations := invocations d @ map wakes_at (filter (due now) (timers d))\<rparr>"

definition timer_cancel :: "nat \<Rightarrow> Timer list \<Rightarrow> Timer list" where
  "timer_cancel i ts = (if i < length ts then ts[i := (ts ! i)\<lparr>finished := True\<rparr>] else ts)"

text \<open>\<^verbatim>\<open>Debouncer.trigger\<close>, called at time \<open>now\<close>, and \<^verbatim>\<open>Debouncer.cancel\<close>.\<close>

definition trigger :: "real \<Rightarrow> Debouncer \<Rightarrow> Debouncer" where
  "trigger now d =
     (let d1 = run_timers now d;
          d2 = (case timer d1 of
                  None \<Rightarrow> d1
                | Some i \<Rightarrow> d1\<lparr>timers := timer_cancel i (timers d1)\<rparr>)
      in d2\<lparr>timers := timers d2 @ [\<lparr>wakes_at = now + wait_time d2, finished = False\<rparr>],
            timer := Some (length (timers d2))\<rparr>)"

definition cancel :: "real \<Rightarrow> Debouncer \<Rightarrow> Debouncer" where
  "cancel now d =
     (let d1 = run_timers now d
      in case timer d1 of
           None \<Rightarrow> d1
         | Some i \<Rightarrow> d1\<lparr>timers := timer_cancel i (timers d1), timer := None\<rparr>)"

section \<open>ChangeHandler\<close>

text \<open>
  What a handler call finds around it: the clock, the working directory and the disk.
  One snapshot of the disk serves a whole handler call.
\<close>

record world =
  clock :: real
  getcwd :: string
  disk :: filesystem

datatype event =
    FileSystemEvent (src_path: string) (is_directory: bool)
  | FileSystemMovedEvent (src_path: string) (dest_path: string) (is_directory: bool)

definition is_moved_event :: "event \<Rightarrow> bool" where
  "is_moved_event ev = (case ev of FileSystemMovedEvent s d b \<Rightarrow> True | _ \<Rightarrow> False)"

record ChangeHandler =
  directory :: string
  repo_cache :: cache
  extensions :: "string list"
  excludes :: "string list"
  exclude_dirs :: "string list"
  sensitive_files :: "string list"
  regex_patterns :: "pattern list"
  debouncer :: Debouncer

text \<open>\<^verbatim>\<open>ChangeHandler.__init__\<close>: \<^verbatim>\<open>regex_patterns or []\<close>, and a fresh debouncer.\<close>

definition ChangeHandler_init ::
  "string \<Rightarrow> cache \<Rightarrow> string list \<Rightarrow> string list \<Rightarrow> string list \<Rightarrow> string list \<Rightarrow> real
     \<Rightarrow> pattern list option \<Rightarrow> ChangeHandler" where
  "ChangeHandler_init dir c exts excs edirs sens w pats =
     \<lparr>directory = dir, repo_cache = c, extensions = exts, excludes = excs,
      exclude_dirs = edirs, sensitive_files = sens,
      regex_patterns = (case pats of None \<Rightarrow> [] | Some ps \<Rightarrow> ps),
      debouncer = Debouncer_init w\<rparr>"

text \<open>The loop over \<^verbatim>\<open>exclude_dirs\<close> in \<^verbatim>\<open>_is_relevant_file\<close>: does some listed directory,
  joined to the watched directory, equal its common path with the file?\<close>

fun in_excluded_dir :: "string \<Rightarrow> string \<Rightarrow> string list \<Rightarrow> error + bool" where
  "in_excluded_dir dir file_path [] = Inr False"
| "in_excluded_dir dir file_path (ed # eds) =
     (let abs_excl = path_join dir ed
      in case commonpath file_path abs_excl of
           Inl e \<Rightarrow> Inl e
         | Inr common \<Rightarrow>
             if common = abs_excl then Inr True else in_excluded_dir dir file_path eds)"

definition is_relevant_file :: "ChangeHandler \<Rightarrow> string \<Rightarrow> error + bool" where
  "is_relevant_file h file_path =
     (let file_name = basename file_path
      in if file_name \<in> set (sensitive_files h) then Inr False
         else if \<not> list_ex (\<lambda>ext. endswith file_name ext) (extensions h) then Inr False
         else if list_ex (\<lambda>x. endswith file_name x) (excludes h) then Inr False
         else case in_excluded_dir (directory h) file_path (exclude_dirs h) of
                Inl e \<Rightarrow> Inl e
              | Inr True \<Rightarrow> Inr False
              | Inr False \<Rightarrow>
                  Inr (\<not> list_ex (\<lambda>pattern. re_search pattern file_name) (regex_patterns h)))"

text \<open>\<^verbatim>\<open>_handle_change\<close>: refresh the entry of a file that exists, then trigger.\<close>

definition handle_change :: "world \<Rightarrow> ChangeHandler \<Rightarrow> string \<Rightarrow> error + ChangeHandler" where
  "handle_change w h file_path =
     (case relpath (getcwd w) file_path (directory h) of
        Inl e \<Rightarrow> Inl e
      | Inr rel_path \<Rightarrow>
          (case (if path_exists (disk w) file_path
                 then update_file (disk w) (repo_cache h) file_path rel_path
                 else Inr (repo_cache h)) of
             Inl e \<Rightarrow> Inl e
           | Inr c \<Rightarrow> Inr (h\<lparr>repo_cache := c, debouncer := trigger (clock w) (debouncer h)\<rparr>)))"

text \<open>\<^verbatim>\<open>on_created\<close> and \<^verbatim>\<open>on_modified\<close> have the same body.\<close>

definition on_created :: "world \<Rightarrow> ChangeHandler \<Rightarrow> event \<Rightarrow> error + ChangeHandler" where
  "on_created w h ev =
     (if is_directory ev then Inr h
      else case is_relevant_file h (src_path ev) of
             Inl e \<Rightarrow> Inl e
           | Inr relevant \<Rightarrow> if relevant then handle_change w h (src_path ev) else Inr h)"

definition on_modified :: "world \<Rightarrow> ChangeHandler \<Rightarrow> event \<Rightarrow> error + ChangeHandler" where
  "on_modified w h ev =
     (if is_directory ev then Inr h
      else case is_relevant_file h (src_path ev) of
             Inl e \<Rightarrow> Inl e
           | Inr relevant \<Rightarrow> if relevant then handle_change w h (src_path ev) else Inr h)"

definition on_deleted :: "world \<Rightarrow> ChangeHandler \<Rightarrow> event \<Rightarrow> error + ChangeHandler" where
  "on_deleted w h ev =
     (if is_directory ev then Inr h
      else case is_relevant_file h (src_path ev) of
             Inl e \<Rightarrow> Inl e
           | Inr relevant \<Rightarrow>
               if \<not> relevant then Inr h
               else (case relpath (getcwd w) (src_path ev) (directory h) of
                       Inl e \<Rightarrow> Inl e
                     | Inr rel_path \<Rightarrow>
                         (case remove_file (repo_cache h) rel_path of
                            Inl e \<Rightarrow> Inl e
                          | Inr c \<Rightarrow>
                              Inr (h\<lparr>repo_cache := c,
                                     debouncer := trigger (clock w) (debouncer h)\<rparr>))))"

text \<open>\<^verbatim>\<open>on_moved\<close>: the old path is dropped when it is relevant, the new path is handled as a
  change when it is relevant; nothing else happens.\<close>

definition on_moved :: "world \<Rightarrow> ChangeHandler \<Rightarrow> event \<Rightarrow> error + ChangeHandler" where
  "on_moved w h ev =
     (if \<not> (is_moved_event ev \<and> \<not> is_directory ev) then Inr h
      else let old_path = src_path ev; new_path = dest_path ev
           in case is_relevant_file h old_path of
                Inl e \<Rightarrow> Inl e
              | Inr old_relevant \<Rightarrow>
                  (case (if old_relevant
                         then (case relpath (getcwd w) old_path (directory h) of
                                 Inl e \<Rightarrow> Inl e
                               | Inr old_rel \<Rightarrow>
                                   (case remove_file (repo_cache h) old_rel of
                                      Inl e \<Rightarrow> Inl e
                                    | Inr c \<Rightarrow> Inr (h\<lparr>repo_cache := c\<rparr>)))
                         else Inr h) of
                     Inl e \<Rightarrow> Inl e
                   | Inr h1 \<Rightarrow>
                       (case is_relevant_file h1 new_path of
                          Inl e \<Rightarrow> Inl e
                        | Inr new_relevant \<Rightarrow>
                            if new_relevant then handle_change w h1 new_path else Inr h1)))"

text \<open>The number of calls of \<^verbatim>\<open>Debouncer.trigger\<close> so far: each call creates one timer
  object, and nothing else does.\<close>

definition trigger_calls :: "Debouncer \<Rightarrow> nat" where
  "trigger_calls d = length (timers d)"

text \<open>The configuration that \<^verbatim>\<open>main\<close> builds, and the handler it creates from it.\<close>

definition main_extensions :: "string list" where
  "main_extensions =
     [''.java'', ''.kt'', ''.jsp'', ''.properties'', ''.js'', ''.ts'', ''.css'', ''.json'', ''.html'']"

definition main_excludes :: "string list" where
  "main_excludes = [''.spec.ts'']"

definition main_exclude_dirs :: "string list" where
  "main_exclude_dirs = [''test'', ''build'', ''target'']"

definition main_sensitive_files :: "string list" where
  "main_sensitive_files = [''.env'', ''private.key'', ''secrets.txt'', ''passwords.json'']"

definition main_handler :: "string \<Rightarrow> cache \<Rightarrow> ChangeHandler" where
  "main_handler directory_path c =
     ChangeHandler_init directory_path c main_extensions main_excludes main_exclude_dirs
       main_sensitive_files 5 (Some [])"

text \<open>
  A burst of calls of \<^verbatim>\<open>trigger\<close>, at the times of the list in turn; in a burst each
  call comes less than \<open>w\<close> after the call before it. A debouncer is \<open>armed\<close> by a call
  at time \<open>t\<close> when its latest timer, the one \<^verbatim>\<open>_timer\<close> refers to, waits for \<open>t + w\<close>
  and every older timer is finished.
\<close>

definition trigger_all :: "Debouncer \<Rightarrow> real list \<Rightarrow> Debouncer" where
  "trigger_all d ts = foldl (\<lambda>d t. trigger t d) d ts"

fun spaced :: "real \<Rightarrow> real list \<Rightarrow> bool" where
  "spaced w (t # u # ts) = (u - t < w \<and> spaced w (u # ts))"
| "spaced w ts = True"

definition armed :: "real \<Rightarrow> real list \<Rightarrow> real \<Rightarrow> Debouncer \<Rightarrow> bool" where
  "armed w calls t d =
     (wait_time d = w \<and> invocations d = calls \<and> timers d \<noteq> [] \<and>
      timer d = Some (length (timers d) - 1) \<and>
      list_all finished (butlast (timers d)) \<and>
      last (timers d) = \<lparr>wakes_at = t + w, finished = False\<rparr>)"

section \<open>The change handler of SyncRepo.py\<close>

text \<open>
  The handler of \<^verbatim>\<open>SyncRepo.py\<close> keeps \<^verbatim>\<open>debounce_time\<close> and \<^verbatim>\<open>last_update\<close>; it has no
  timer and no queue. \<^verbatim>\<open>update_code_base\<close> rebuilds the document from the disk at once;
  \<open>updates\<close> records the times at which it was called. \<^verbatim>\<open>on_any_event\<close> takes the reading
  of \<^verbatim>\<open>time.time()\<close>.
\<close>

record SyncRepo_ChangeHandler =
  debounce_time :: real
  last_update :: real
  updates :: "real list"

definition SyncRepo_ChangeHandler_init :: "real \<Rightarrow> SyncRepo_ChangeHandler" where
  "SyncRepo_ChangeHandler_init now = \<lparr>debounce_time = 5, last_update = now, updates = []\<rparr>"

definition on_any_event :: "real \<Rightarrow> SyncRepo_ChangeHandler \<Rightarrow> SyncRepo_ChangeHandler" where
  "on_any_event current_time h =
     (if current_time - last_update h < debounce_time h then h
      else h\<lparr>last_update := current_time, updates := updates h @ [current_time]\<rparr>)"

definition on_any_events :: "SyncRepo_ChangeHandler \<Rightarrow> real list \<Rightarrow> SyncRepo_ChangeHandler" where
  "on_any_events h ts = foldl (\<lambda>h t. on_any_event t h) h ts"

text \<open>A disk with nothing on it; files are put on it with function update.\<close>

definition empty_disk :: filesystem where
  "empty_disk = (\<lambda>p. Missing)"

section \<open>Properties of the cache\<close>

lemma dict_contains_iff: "dict_contains c k \<longleftrightarrow> k \<in> fst ` set c"
  by (simp add: dict_contains_def dict_keys_def)

lemma remove_file_result: "remove_file c p = Inr (AList.delete p c)"
  by (simp add: remove_file_def dict_del_def dict_contains_iff)

text \<open>
  C9. Removing a path that is not in the cache returns the very same dictionary, and
  never raises; removing twice gives what removing once gives, so the second call changes
  nothing.
\<close>

theorem remove_file_idempotent:
  "(\<not> dict_contains c p \<longrightarrow> remove_file c p = Inr c) \<and>
   (\<exists>c1. remove_file c p = Inr c1 \<and> \<not> dict_contains c1 p \<and> remove_file c1 p = Inr c1)"
  by (simp add: remove_file_def dict_del_def dict_contains_iff delete_notin_dom)

theorem remove_file_idempotent_witness:
  "\<not> dict_contains [(''a.js'', ''x'')] ''b.js'' \<and>
   remove_file [(''a.js'', ''x'')] ''b.js'' = Inr [(''a.js'', ''x'')] \<and>
   remove_file [(''a.js'', ''x''), (''b.js'', ''y'')] ''a.js'' = Inr [(''b.js'', ''y'')] \<and>
   remove_file [(''b.js'', ''y'')] ''a.js'' = Inr [(''b.js'', ''y'')]"
  using remove_file_idempotent [of "[(''a.js'', ''x'')]" "''b.js''"]
    remove_file_idempotent [of "[(''a.js'', ''x''), (''b.js'', ''y'')]" "''a.js''"]
  by (simp add: remove_file_def dict_del_def dict_contains_def dict_keys_def)

section \<open>Evaluation on concrete inputs\<close>

lemmas main_defs = main_handler_def main_extensions_def main_excludes_def main_exclude_dirs_def
  main_sensitive_files_def ChangeHandler_init_def Debouncer_init_def

lemmas path_defs = basename_def endswith_def startswith_def path_join_def commonpath_def
  path_components_def relpath_def abspath_def normpath_def initial_slashes_def norm_step_def
  split_tail_def

lemma relevant_a_js: "is_relevant_file (main_handler ''/proj'' c) ''/proj/a.js'' = Inr True"
  by (simp add: is_relevant_file_def main_defs path_defs Let_def re_search_def)

lemma relevant_b_js: "is_relevant_file (main_handler ''/proj'' c) ''/proj/b.js'' = Inr True"
  by (simp add: is_relevant_file_def main_defs path_defs Let_def re_search_def)

lemma irrelevant_a_txt: "is_relevant_file (main_handler ''/proj'' c) ''/proj/a.txt'' = Inr False"
  by (simp add: is_relevant_file_def main_defs path_defs Let_def re_search_def)

lemma relpath_a_js: "relpath ''/home'' ''/proj/a.js'' ''/proj'' = Inr ''a.js''"
  by (simp add: path_defs Let_def)

lemma relpath_b_js: "relpath ''/home'' ''/proj/b.js'' ''/proj'' = Inr ''b.js''"
  by (simp add: path_defs Let_def)

lemma main_handler_fields:
  "directory (main_handler d c) = d"
  "repo_cache (main_handler d c) = c"
  "debouncer (main_handler d c) = Debouncer_init 5"
  "main_handler d c\<lparr>repo_cache := c'\<rparr> = main_handler d c'"
  by (simp_all add: main_handler_def ChangeHandler_init_def)

section \<open>Properties of the change handler\<close>

lemma trigger_calls_trigger: "trigger_calls (trigger now d) = Suc (trigger_calls d)"
  by (simp add: trigger_calls_def trigger_def run_timers_def timer_cancel_def Let_def
      split: option.splits)

lemma is_relevant_file_cache: "is_relevant_file (h\<lparr>repo_cache := c\<rparr>) p = is_relevant_file h p"
  by (simp add: is_relevant_file_def Let_def split: sum.splits bool.splits)

lemma update_file_missing: "\<not> path_exists fs p \<Longrightarrow> update_file fs c p rel = remove_file c rel"
  by (simp add: update_file_def)

lemma update_file_exists:
  "path_exists fs p \<Longrightarrow> update_file fs c p rel = Inr (read_and_store_file fs c p rel)"
  by (simp add: update_file_def)

lemma handle_change_exists:
  "relpath (getcwd w) p (directory h) = Inr rel \<Longrightarrow> path_exists (disk w) p \<Longrightarrow>
   handle_change w h p =
     Inr (h\<lparr>repo_cache := read_and_store_file (disk w) (repo_cache h) p rel,
            debouncer := trigger (clock w) (debouncer h)\<rparr>)"
  by (simp add: handle_change_def update_file_exists)

lemma handle_change_missing:
  "relpath (getcwd w) p (directory h) = Inr rel \<Longrightarrow> \<not> path_exists (disk w) p \<Longrightarrow>
   handle_change w h p = Inr (h\<lparr>debouncer := trigger (clock w) (debouncer h)\<rparr>)"
  by (simp add: handle_change_def)

text \<open>
  C8. A file name on the sensitive list is rejected by both filters, the one of the scan
  and the one of the change handler (which looks at the base name of the path), whatever
  the extensions, the excluded suffixes, the excluded directories and the patterns are.
\<close>

theorem sensitive_files_always_excluded:
  "(f \<in> set sens \<longrightarrow> \<not> should_include f exts excs sens pats) \<and>
   (basename p \<in> set (sensitive_files h) \<longrightarrow> is_relevant_file h p = Inr False)"
  by (simp add: should_include_def is_relevant_file_def)

theorem sensitive_files_always_excluded_witness:
  "''.env'' \<in> set [''.env'', ''private.key''] \<and>
   endswith ''.env'' ''.env'' \<and>
   \<not> should_include ''.env'' [''.env'', ''.js''] [] [''.env'', ''private.key''] None \<and>
   basename ''/proj/sub/.env'' = ''.env'' \<and>
   is_relevant_file
     (ChangeHandler_init ''/proj'' [] [''.env'', ''.js''] [] [] [''.env'', ''private.key''] 5 None)
     ''/proj/sub/.env'' = Inr False"
  using sensitive_files_always_excluded [of "''.env''" "[''.env'', ''private.key'']"
      "[''.env'', ''.js'']" "[]" None "''/proj/sub/.env''"
      "ChangeHandler_init ''/proj'' [] [''.env'', ''.js''] [] [] [''.env'', ''private.key''] 5 None"]
  by (simp add: endswith_def basename_def ChangeHandler_init_def)

text \<open>
  C2, as the claim states it, fails: a file that exists but cannot be read keeps the
  content stored for it earlier.
\<close>

theorem update_file_unreadable_counterexample:
  "path_exists (empty_disk(''/proj/a.js'' := Unreadable)) ''/proj/a.js'' \<and>
   update_file (empty_disk(''/proj/a.js'' := Unreadable)) [(''a.js'', ''old'')]
     ''/proj/a.js'' ''a.js'' = Inr [(''a.js'', ''old'')] \<and>
   dict_contains [(''a.js'', ''old'')] ''a.js'' \<and>
   get_file_content [(''a.js'', ''old'')] ''a.js'' = ''old''"
  by (simp add: update_file_def path_exists_def read_and_store_file_def empty_disk_def
      dict_contains_def dict_keys_def get_file_content_def dict_get_def)

text \<open>
  C2, amended. An upsert of a file that is on disk but cannot be read leaves the cache
  exactly as it was, so the path has an entry afterwards only if it had one before; an
  upsert of a file that is not on disk leaves no entry for the path.
\<close>

theorem update_file_read_failure:
  "(fs p = Unreadable \<longrightarrow> update_file fs c p rel = Inr c) \<and>
   (fs p = Missing \<longrightarrow> (\<exists>c'. update_file fs c p rel = Inr c' \<and> \<not> dict_contains c' rel))"
  using delete_notin_dom [of rel c]
  by (simp add: update_file_def path_exists_def read_and_store_file_def remove_file_result
      dict_contains_iff)

theorem update_file_read_failure_witness:
  "(empty_disk(''/proj/a.js'' := Unreadable)) ''/proj/a.js'' = Unreadable \<and>
   update_file (empty_disk(''/proj/a.js'' := Unreadable)) [] ''/proj/a.js'' ''a.js'' = Inr [] \<and>
   empty_disk ''/proj/a.js'' = Missing \<and>
   update_file empty_disk [(''a.js'', ''old'')] ''/proj/a.js'' ''a.js'' = Inr []"
  using update_file_read_failure [of "empty_disk(''/proj/a.js'' := Unreadable)" "''/proj/a.js''"
      "[]" "''a.js''"]
    update_file_read_failure [of empty_disk "''/proj/a.js''" "[(''a.js'', ''old'')]" "''a.js''"]
  by (simp add: empty_disk_def update_file_def path_exists_def remove_file_result)

text \<open>
  C3, as the claim states it, fails: the handler asks the disk before it calls
  \<^verbatim>\<open>update_file\<close>, and does not call it for a file that is gone. A modified event for
  \<^verbatim>\<open>/proj/a.js\<close>, which is no longer on disk, leaves the entry of \<^verbatim>\<open>a.js\<close> in the
  cache (an upsert would have removed it), and triggers the debouncer.
\<close>

theorem on_modified_missing_counterexample:
  "is_relevant_file (main_handler ''/proj'' [(''a.js'', ''old'')]) ''/proj/a.js'' = Inr True \<and>
   \<not> path_exists empty_disk ''/proj/a.js'' \<and>
   on_modified \<lparr>clock = 100, getcwd = ''/home'', disk = empty_disk\<rparr>
     (main_handler ''/proj'' [(''a.js'', ''old'')]) (FileSystemEvent ''/proj/a.js'' False)
   = Inr ((main_handler ''/proj'' [(''a.js'', ''old'')])
            \<lparr>debouncer := trigger 100 (Debouncer_init 5)\<rparr>) \<and>
   dict_contains [(''a.js'', ''old'')] ''a.js'' \<and>
   update_file empty_disk [(''a.js'', ''old'')] ''/proj/a.js'' ''a.js'' = Inr []"
proof -
  have "handle_change \<lparr>clock = 100, getcwd = ''/home'', disk = empty_disk\<rparr>
          (main_handler ''/proj'' [(''a.js'', ''old'')]) ''/proj/a.js''
        = Inr ((main_handler ''/proj'' [(''a.js'', ''old'')])
                 \<lparr>debouncer := trigger 100 (Debouncer_init 5)\<rparr>)"
    by (simp add: handle_change_def main_handler_fields relpath_a_js path_exists_def
        empty_disk_def)
  then show ?thesis
    by (simp add: on_modified_def relevant_a_js path_exists_def empty_disk_def
        dict_contains_def dict_keys_def update_file_def remove_file_result)
qed

text \<open>
  C3, amended. For a created or modified event of a file whose path passes the filter,
  the handler triggers the debouncer exactly once, and before that calls
  \<^verbatim>\<open>update_file\<close> on the relative path if the file is on disk when the handler looks;
  if it is not, the cache stays as it is. \<^verbatim>\<open>update_file\<close> itself, called for a file
  that is not on disk, behaves as \<^verbatim>\<open>remove_file\<close>.
\<close>

theorem on_modified_upsert_then_trigger:
  assumes "\<not> is_directory ev"
    and "is_relevant_file h (src_path ev) = Inr True"
    and "relpath (getcwd w) (src_path ev) (directory h) = Inr rel"
  shows "on_created w h ev = on_modified w h ev \<and>
    (path_exists (disk w) (src_path ev) \<longrightarrow>
       (\<exists>c. update_file (disk w) (repo_cache h) (src_path ev) rel = Inr c \<and>
            on_modified w h ev =
              Inr (h\<lparr>repo_cache := c, debouncer := trigger (clock w) (debouncer h)\<rparr>))) \<and>
    (\<not> path_exists (disk w) (src_path ev) \<longrightarrow>
       on_modified w h ev = Inr (h\<lparr>debouncer := trigger (clock w) (debouncer h)\<rparr>) \<and>
       update_file (disk w) (repo_cache h) (src_path ev) rel = remove_file (repo_cache h) rel) \<and>
    (\<exists>h'. on_modified w h ev = Inr h' \<and>
          trigger_calls (debouncer h') = Suc (trigger_calls (debouncer h)))"
proof -
  have eq: "on_created w h ev = on_modified w h ev"
    by (simp add: on_created_def on_modified_def)
  have m: "on_modified w h ev = handle_change w h (src_path ev)"
    using assms(1,2) by (simp add: on_modified_def)
  show ?thesis
  proof (cases "path_exists (disk w) (src_path ev)")
    case True
    then show ?thesis
      using eq m handle_change_exists [OF assms(3) True]
      by (simp add: update_file_exists trigger_calls_trigger)
  next
    case False
    then show ?thesis
      using eq m handle_change_missing [OF assms(3) False]
      by (simp add: update_file_missing trigger_calls_trigger)
  qed
qed

theorem on_modified_upsert_then_trigger_witness:
  "\<not> is_directory (FileSystemEvent ''/proj/a.js'' False) \<and>
   is_relevant_file (main_handler ''/proj'' [(''a.js'', ''old'')])
     (src_path (FileSystemEvent ''/proj/a.js'' False)) = Inr True \<and>
   relpath ''/home'' ''/proj/a.js'' ''/proj'' = Inr ''a.js'' \<and>
   path_exists (empty_disk(''/proj/a.js'' := Readable ''new'')) ''/proj/a.js'' \<and>
   on_modified \<lparr>clock = 100, getcwd = ''/home'',
                 disk = empty_disk(''/proj/a.js'' := Readable ''new'')\<rparr>
     (main_handler ''/proj'' [(''a.js'', ''old'')]) (FileSystemEvent ''/proj/a.js'' False)
   = Inr ((main_handler ''/proj'' [(''a.js'', ''new'')])
            \<lparr>debouncer := trigger 100 (Debouncer_init 5)\<rparr>)"
proof -
  let ?ev = "FileSystemEvent ''/proj/a.js'' False"
  let ?h = "main_handler ''/proj'' [(''a.js'', ''old'')]"
  let ?w = "\<lparr>clock = 100, getcwd = ''/home'',
             disk = empty_disk(''/proj/a.js'' := Readable ''new'')\<rparr>"
  have a1: "\<not> is_directory ?ev" by simp
  have a2: "is_relevant_file ?h (src_path ?ev) = Inr True" by (simp add: relevant_a_js)
  have a3: "relpath (getcwd ?w) (src_path ?ev) (directory ?h) = Inr ''a.js''"
    by (simp add: relpath_a_js main_handler_fields)
  show ?thesis
    using on_modified_upsert_then_trigger [OF a1 a2 a3] a2
    by (simp add: relpath_a_js path_exists_def update_file_def read_and_store_file_def
        dict_set_def main_handler_fields)
qed

text \<open>
  C1, as the claim states it, fails in two ways. A file moved from \<^verbatim>\<open>/proj/a.js\<close> (in
  scope) to \<^verbatim>\<open>/proj/a.txt\<close> (out of scope) is removed from the cache, and the debouncer
  is left as it was created: no call of \<^verbatim>\<open>trigger\<close>. And a file moved to \<^verbatim>\<open>/proj/b.js\<close>
  (in scope) that is no longer on disk when the handler looks is not upserted: the entry
  stored for \<^verbatim>\<open>b.js\<close> stays, where \<^verbatim>\<open>update_file\<close> would have removed it.
\<close>

theorem on_moved_counterexample:
  "on_moved \<lparr>clock = 100, getcwd = ''/home'', disk = empty_disk(''/proj/a.txt'' := Readable ''x'')\<rparr>
     (main_handler ''/proj'' [(''a.js'', ''x'')])
     (FileSystemMovedEvent ''/proj/a.js'' ''/proj/a.txt'' False)
   = Inr (main_handler ''/proj'' []) \<and>
   trigger_calls (debouncer (main_handler ''/proj'' [])) = 0 \<and>
   on_moved \<lparr>clock = 100, getcwd = ''/home'', disk = empty_disk\<rparr>
     (main_handler ''/proj'' [(''a.js'', ''x''), (''b.js'', ''stale'')])
     (FileSystemMovedEvent ''/proj/a.js'' ''/proj/b.js'' False)
   = Inr ((main_handler ''/proj'' [(''b.js'', ''stale'')])
            \<lparr>debouncer := trigger 100 (Debouncer_init 5)\<rparr>) \<and>
   update_file empty_disk [(''b.js'', ''stale'')] ''/proj/b.js'' ''b.js'' = Inr []"
proof -
  have "handle_change \<lparr>clock = 100, getcwd = ''/home'', disk = empty_disk\<rparr>
          (main_handler ''/proj'' [(''b.js'', ''stale'')]) ''/proj/b.js''
        = Inr ((main_handler ''/proj'' [(''b.js'', ''stale'')])
                 \<lparr>debouncer := trigger 100 (Debouncer_init 5)\<rparr>)"
    by (simp add: handle_change_def main_handler_fields relpath_b_js path_exists_def
        empty_disk_def)
  then show ?thesis
    by (simp add: on_moved_def is_moved_event_def relevant_a_js relevant_b_js irrelevant_a_txt
        relpath_a_js main_handler_fields remove_file_result trigger_calls_def
        Debouncer_init_def update_file_def path_exists_def empty_disk_def)
qed

text \<open>
  C1, amended. For a moved event of a file, the handler removes the entry of the source's
  relative path when the source passes the filter; when the destination passes the
  filter, it calls \<^verbatim>\<open>update_file\<close> on the destination if that file is on disk when the
  handler looks, and triggers the debouncer exactly once; when neither side passes the
  filter, the handler changes nothing and does not trigger.
\<close>

theorem on_moved_effects:
  assumes "is_moved_event ev" and "\<not> is_directory ev"
    and "is_relevant_file h (src_path ev) = Inr src_ok"
    and "is_relevant_file h (dest_path ev) = Inr dst_ok"
    and "relpath (getcwd w) (src_path ev) (directory h) = Inr old_rel"
    and "relpath (getcwd w) (dest_path ev) (directory h) = Inr new_rel"
  shows "\<exists>c1 h'. on_moved w h ev = Inr h' \<and>
      (src_ok \<longrightarrow> remove_file (repo_cache h) old_rel = Inr c1 \<and> \<not> dict_contains c1 old_rel) \<and>
      (\<not> src_ok \<longrightarrow> c1 = repo_cache h) \<and>
      (dst_ok \<and> path_exists (disk w) (dest_path ev) \<longrightarrow>
         update_file (disk w) c1 (dest_path ev) new_rel = Inr (repo_cache h')) \<and>
      (\<not> (dst_ok \<and> path_exists (disk w) (dest_path ev)) \<longrightarrow> repo_cache h' = c1) \<and>
      (dst_ok \<longrightarrow> debouncer h' = trigger (clock w) (debouncer h) \<and>
                 trigger_calls (debouncer h') = Suc (trigger_calls (debouncer h))) \<and>
      (\<not> src_ok \<and> \<not> dst_ok \<longrightarrow> h' = h \<and>
                 trigger_calls (debouncer h') = trigger_calls (debouncer h))"
proof -
  define c1 where "c1 = (if src_ok then AList.delete old_rel (repo_cache h) else repo_cache h)"
  define h1 where "h1 = h\<lparr>repo_cache := c1\<rparr>"
  have rel1: "relpath (getcwd w) (dest_path ev) (directory h1) = Inr new_rel"
    using assms(6) by (simp add: h1_def)
  have step: "on_moved w h ev = (if dst_ok then handle_change w h1 (dest_path ev) else Inr h1)"
    using assms(1-5)
    by (simp add: on_moved_def Let_def remove_file_result is_relevant_file_cache h1_def c1_def)
  have rm: "src_ok \<longrightarrow> remove_file (repo_cache h) old_rel = Inr c1 \<and> \<not> dict_contains c1 old_rel"
    using delete_notin_dom [of old_rel "repo_cache h"]
    by (simp add: c1_def remove_file_result dict_contains_iff)
  have keep: "\<not> src_ok \<longrightarrow> c1 = repo_cache h \<and> h1 = h"
    by (simp add: c1_def h1_def)
  show ?thesis
  proof (cases "dst_ok")
    case False
    then show ?thesis
      using step rm keep by (intro exI [of _ c1] exI [of _ h1]) (simp add: h1_def)
  next
    case True
    show ?thesis
    proof (cases "path_exists (disk w) (dest_path ev)")
      case ex: True
      show ?thesis
        using step rm keep True ex handle_change_exists [OF rel1 ex]
        by (intro exI [of _ c1]
            exI [of _ "h1\<lparr>repo_cache :=
                             read_and_store_file (disk w) (repo_cache h1) (dest_path ev) new_rel,
                          debouncer := trigger (clock w) (debouncer h1)\<rparr>"])
          (simp add: h1_def update_file_exists trigger_calls_trigger)
    next
      case nex: False
      show ?thesis
        using step rm keep True nex handle_change_missing [OF rel1 nex]
        by (intro exI [of _ c1] exI [of _ "h1\<lparr>debouncer := trigger (clock w) (debouncer h1)\<rparr>"])
          (simp add: h1_def trigger_calls_trigger)
    qed
  qed
qed

theorem on_moved_effects_witness:
  "is_moved_event (FileSystemMovedEvent ''/proj/a.js'' ''/proj/b.js'' False) \<and>
   \<not> is_directory (FileSystemMovedEvent ''/proj/a.js'' ''/proj/b.js'' False) \<and>
   is_relevant_file (main_handler ''/proj'' [(''a.js'', ''x'')]) ''/proj/a.js'' = Inr True \<and>
   is_relevant_file (main_handler ''/proj'' [(''a.js'', ''x'')]) ''/proj/b.js'' = Inr True \<and>
   relpath ''/home'' ''/proj/a.js'' ''/proj'' = Inr ''a.js'' \<and>
   relpath ''/home'' ''/proj/b.js'' ''/proj'' = Inr ''b.js'' \<and>
   (\<exists>h'. on_moved \<lparr>clock = 100, getcwd = ''/home'',
                     disk = empty_disk(''/proj/b.js'' := Readable ''x'')\<rparr>
            (main_handler ''/proj'' [(''a.js'', ''x'')])
            (FileSystemMovedEvent ''/proj/a.js'' ''/proj/b.js'' False) = Inr h' \<and>
         repo_cache h' = [(''b.js'', ''x'')] \<and>
         trigger_calls (debouncer h') = 1)"
proof -
  let ?ev = "FileSystemMovedEvent ''/proj/a.js'' ''/proj/b.js'' False"
  let ?h = "main_handler ''/proj'' [(''a.js'', ''x'')]"
  let ?w = "\<lparr>clock = 100, getcwd = ''/home'',
             disk = empty_disk(''/proj/b.js'' := Readable ''x'')\<rparr>"
  have a1: "is_moved_event ?ev" by (simp add: is_moved_event_def)
  have a2: "\<not> is_directory ?ev" by simp
  have a3: "is_relevant_file ?h (src_path ?ev) = Inr True" by (simp add: relevant_a_js)
  have a4: "is_relevant_file ?h (dest_path ?ev) = Inr True" by (simp add: relevant_b_js)
  have a5: "relpath (getcwd ?w) (src_path ?ev) (directory ?h) = Inr ''a.js''"
    by (simp add: relpath_a_js main_handler_fields)
  have a6: "relpath (getcwd ?w) (dest_path ?ev) (directory ?h) = Inr ''b.js''"
    by (simp add: relpath_b_js main_handler_fields)
  show ?thesis
    using on_moved_effects [OF a1 a2 a3 a4 a5 a6] a1 a3 a4
    by (auto simp: relpath_a_js relpath_b_js path_exists_def update_file_def
        read_and_store_file_def dict_set_def main_handler_fields remove_file_result
        trigger_calls_def Debouncer_init_def)
qed

text \<open>
  C4. The filter of the change handler compares the file's path with each excluded
  directory joined to the watched directory, so it rejects only what lies under an
  excluded directory directly below the root: \<^verbatim>\<open>/proj/test/f.js\<close> is rejected,
  \<^verbatim>\<open>/proj/a/test/f.js\<close> is accepted, although \<^verbatim>\<open>test\<close> is an excluded directory.
  A directory whose name only contains an excluded name is not excluded. The initial scan
  of the same tree leaves \<^verbatim>\<open>a/test/f.js\<close> out.
\<close>

theorem is_relevant_file_nested_excluded_dir:
  "is_relevant_file (main_handler ''/proj'' []) ''/proj/a/test/f.js'' = Inr True \<and>
   is_relevant_file (main_handler ''/proj'' []) ''/proj/test/f.js'' = Inr False \<and>
   is_relevant_file (main_handler ''/proj'' []) ''/proj/mytest-data/f.js'' = Inr True \<and>
   load_initial_cache ''/home'' (empty_disk(''/proj/a/test/f.js'' := Readable ''x''))
     [DirNode ''a'' [DirNode ''test'' [FileNode ''f.js'']]] []
     ''/proj'' main_extensions main_excludes main_exclude_dirs main_sensitive_files (Some [])
   = Inr []"
  by (simp add: is_relevant_file_def main_defs path_defs Let_def re_search_def
      load_initial_cache_def scan_def scan_body_def dict_clear_def)

section \<open>Properties of the two schedulers\<close>

lemma on_any_events_discarded:
  "list_all (\<lambda>t. t - last_update h < debounce_time h) ts \<Longrightarrow> on_any_events h ts = h"
  unfolding on_any_events_def
  by (induction ts) (simp_all add: on_any_event_def)

lemma on_any_events_snoc:
  "on_any_events h (ts @ [t]) = on_any_event t (on_any_events h ts)"
  by (simp add: on_any_events_def)

text \<open>
  C10. The handler of SyncRepo.py is created with a \<^verbatim>\<open>debounce_time\<close> of 5 seconds. An
  event that arrives at least \<^verbatim>\<open>debounce_time\<close> after \<^verbatim>\<open>last_update\<close> rebuilds at once and
  moves \<^verbatim>\<open>last_update\<close> to its own time; an event that arrives earlier than that returns
  with the handler exactly as it was, so nothing is scheduled for later; hence a whole
  burst inside the window, its last event included, causes no rebuild, and the next
  rebuild is the one of the first event outside the window.
\<close>

theorem on_any_event_throttles:
  "debounce_time (SyncRepo_ChangeHandler_init t0) = 5 \<and>
   last_update (SyncRepo_ChangeHandler_init t0) = t0 \<and>
   (debounce_time h \<le> t - last_update h \<longrightarrow>
      on_any_event t h = h\<lparr>last_update := t, updates := updates h @ [t]\<rparr>) \<and>
   (t - last_update h < debounce_time h \<longrightarrow> on_any_event t h = h) \<and>
   (list_all (\<lambda>u. u - last_update h < debounce_time h) ts \<and>
    debounce_time h \<le> t - last_update h \<longrightarrow>
      on_any_events h ts = h \<and>
      updates (on_any_events h (ts @ [t])) = updates h @ [t])"
proof -
  have burst: "updates (on_any_events h (ts @ [t])) = updates h @ [t]"
    if "list_all (\<lambda>u. u - last_update h < debounce_time h) ts"
      and "debounce_time h \<le> t - last_update h"
  proof -
    have "on_any_events h (ts @ [t]) = on_any_event t h"
      using on_any_events_discarded [OF that(1)] by (simp add: on_any_events_snoc)
    then show ?thesis using that(2) by (simp add: on_any_event_def)
  qed
  show ?thesis
    using burst by (simp add: SyncRepo_ChangeHandler_init_def on_any_event_def
        on_any_events_discarded)
qed

theorem on_any_event_throttles_witness:
  "debounce_time (SyncRepo_ChangeHandler_init 100) \<le> 106 - last_update (SyncRepo_ChangeHandler_init 100) \<and>
   on_any_event 106 (SyncRepo_ChangeHandler_init 100)
     = \<lparr>debounce_time = 5, last_update = 106, updates = [106]\<rparr> \<and>
   107 - last_update \<lparr>debounce_time = 5, last_update = 106, updates = [106]\<rparr>
     < debounce_time \<lparr>debounce_time = 5, last_update = 106, updates = [106]\<rparr> \<and>
   on_any_event 107 \<lparr>debounce_time = 5, last_update = 106, updates = [106]\<rparr>
     = \<lparr>debounce_time = 5, last_update = 106, updates = [106]\<rparr> \<and>
   list_all (\<lambda>u. u - last_update \<lparr>debounce_time = 5, last_update = 106, updates = [106]\<rparr>
                 < debounce_time \<lparr>debounce_time = 5, last_update = 106, updates = [106]\<rparr>)
     [107, 108, 110.5] \<and>
   on_any_events \<lparr>debounce_time = 5, last_update = 106, updates = [106]\<rparr> [107, 108, 110.5]
     = \<lparr>debounce_time = 5, last_update = 106, updates = [106]\<rparr> \<and>
   updates (on_any_events \<lparr>debounce_time = 5, last_update = 106, updates = [106]\<rparr>
              ([107, 108, 110.5] @ [111])) = [106, 111]"
  using on_any_event_throttles [of 100 "SyncRepo_ChangeHandler_init 100" 106 "[]"]
    on_any_event_throttles [of 100 "\<lparr>debounce_time = 5, last_update = 106, updates = [106]\<rparr>"
      107 "[]"]
    on_any_event_throttles [of 100 "\<lparr>debounce_time = 5, last_update = 106, updates = [106]\<rparr>"
      111 "[107, 108, 110.5]"]
  by (simp add: SyncRepo_ChangeHandler_init_def)

lemma not_due_finished: "finished x \<Longrightarrow> \<not> due now x"
  by (simp add: due_def)

lemma run_timers_none_due:
  assumes "list_all (\<lambda>x. \<not> due now x) (timers d)"
  shows "run_timers now d = d"
proof -
  have f: "filter (due now) (timers d) = []"
    using assms by (simp add: list_all_iff filter_empty_conv)
  have m: "map (\<lambda>x. if due now x then x\<lparr>finished := True\<rparr> else x) (timers d) = timers d"
    using assms by (intro map_idI) (simp add: list_all_iff)
  show ?thesis by (simp add: run_timers_def f m)
qed

lemma run_timers_idle: "list_all finished (timers d) \<Longrightarrow> run_timers now d = d"
  by (rule run_timers_none_due) (simp add: list_all_iff not_due_finished)

lemma timer_cancel_finished:
  "list_all finished xs \<Longrightarrow> list_all finished (timer_cancel i xs)"
  by (auto simp: timer_cancel_def list_all_iff dest!: set_update_subset_insert [THEN subsetD])

lemma timer_cancel_last:
  "list_all finished xs \<Longrightarrow> list_all finished (timer_cancel (length xs) (xs @ [x]))"
  by (simp add: timer_cancel_def)

lemma trigger_idle_armed:
  assumes "list_all finished (timers d)"
  shows "armed (wait_time d) (invocations d) t (trigger t d)"
  using assms timer_cancel_finished [OF assms]
  by (simp add: trigger_def run_timers_idle armed_def Let_def split: option.splits)

lemma armed_timers:
  assumes "armed w calls t d"
  obtains xs where "timers d = xs @ [\<lparr>wakes_at = t + w, finished = False\<rparr>]"
    and "list_all finished xs" and "timer d = Some (length xs)"
    and "wait_time d = w" and "invocations d = calls"
proof -
  from assms have ne: "timers d \<noteq> []" by (simp add: armed_def)
  then have "timers d = butlast (timers d) @ [last (timers d)]" by simp
  with assms that [of "butlast (timers d)"] show thesis
    by (simp add: armed_def)
qed

lemma trigger_armed_armed:
  assumes "armed w calls t d" and "u - t < w"
  shows "armed w calls u (trigger u d)"
proof -
  from assms(1) obtain xs where xs: "timers d = xs @ [\<lparr>wakes_at = t + w, finished = False\<rparr>]"
    "list_all finished xs" "timer d = Some (length xs)" "wait_time d = w" "invocations d = calls"
    by (rule armed_timers)
  have "list_all (\<lambda>x. \<not> due u x) (timers d)"
    using xs(1,2) assms(2) by (simp add: list_all_iff not_due_finished) (simp add: due_def)
  then have r: "run_timers u d = d" by (rule run_timers_none_due)
  show ?thesis
    using xs timer_cancel_last [OF xs(2), of "\<lparr>wakes_at = t + w, finished = False\<rparr>"]
    by (simp add: trigger_def r armed_def Let_def)
qed

lemma trigger_all_armed:
  "armed w calls t d \<Longrightarrow> spaced w (t # ts) \<Longrightarrow> armed w calls (last (t # ts)) (trigger_all d ts)"
proof (induction ts arbitrary: t d)
  case Nil
  then show ?case by (simp add: trigger_all_def)
next
  case (Cons u us)
  from Cons.prems have "armed w calls u (trigger u d)" and "spaced w (u # us)"
    by (simp_all add: trigger_armed_armed)
  from Cons.IH [OF this] show ?case by (simp add: trigger_all_def)
qed

lemma armed_fires_once:
  assumes "armed w calls t d"
  shows "invocations (run_timers T d) = (if t + w \<le> T then calls @ [t + w] else calls)"
proof -
  from assms obtain xs where xs: "timers d = xs @ [\<lparr>wakes_at = t + w, finished = False\<rparr>]"
    "list_all finished xs" "timer d = Some (length xs)" "wait_time d = w" "invocations d = calls"
    by (rule armed_timers)
  have "filter (due T) xs = []"
    using xs(2) by (simp add: list_all_iff filter_empty_conv not_due_finished)
  then show ?thesis
    using xs(1,5) by (simp add: run_timers_def due_def)
qed

text \<open>
  C5. From a debouncer whose timers have all finished, a burst of one or more calls of
  \<^verbatim>\<open>trigger\<close>, each less than \<^verbatim>\<open>wait_time\<close> after the one before, calls the callback not
  at all while the burst lasts and exactly once afterwards, at \<^verbatim>\<open>wait_time\<close> after the
  last call and not before. Each call of \<^verbatim>\<open>trigger\<close> finishes (cancels) the timer that
  \<^verbatim>\<open>_timer\<close> referred to and then starts a new one for \<^verbatim>\<open>wait_time\<close> after this call.
\<close>

theorem debounce_coalescing:
  assumes "list_all finished (timers d0)" and "spaced (wait_time d0) (t # ts)"
  shows "invocations (trigger_all d0 (t # ts)) = invocations d0 \<and>
    invocations (run_timers T (trigger_all d0 (t # ts))) =
      (if last (t # ts) + wait_time d0 \<le> T
       then invocations d0 @ [last (t # ts) + wait_time d0] else invocations d0) \<and>
    (\<forall>i. timer d = Some i \<and> i < length (timers d) \<longrightarrow> finished (timers (trigger now d) ! i)) \<and>
    timer (trigger now d) = Some (length (timers d)) \<and>
    timers (trigger now d) ! length (timers d) = \<lparr>wakes_at = now + wait_time d, finished = False\<rparr>"
proof -
  have "armed (wait_time d0) (invocations d0) t (trigger t d0)"
    using assms(1) by (rule trigger_idle_armed)
  then have a: "armed (wait_time d0) (invocations d0) (last (t # ts)) (trigger_all (trigger t d0) ts)"
    using assms(2) by (rule trigger_all_armed)
  have e: "trigger_all d0 (t # ts) = trigger_all (trigger t d0) ts"
    by (simp add: trigger_all_def)
  have c: "finished (timers (trigger now d) ! i)" if "timer d = Some i" "i < length (timers d)" for i
    using that
    by (simp add: trigger_def Let_def run_timers_def timer_cancel_def nth_append)
  have n: "timer (trigger now d) = Some (length (timers d)) \<and>
    timers (trigger now d) ! length (timers d) = \<lparr>wakes_at = now + wait_time d, finished = False\<rparr>"
    by (simp add: trigger_def Let_def run_timers_def timer_cancel_def nth_append
        split: option.splits)
  show ?thesis
    using a armed_fires_once [OF a, of T] c n by (simp add: e armed_def)
qed

theorem debounce_coalescing_witness:
  "list_all finished (timers (Debouncer_init 5)) \<and> spaced (wait_time (Debouncer_init 5)) [100, 103, 107] \<and>
   invocations (trigger_all (Debouncer_init 5) [100, 103, 107]) = [] \<and>
   invocations (run_timers 111 (trigger_all (Debouncer_init 5) [100, 103, 107])) = [] \<and>
   invocations (run_timers 112 (trigger_all (Debouncer_init 5) [100, 103, 107])) = [112] \<and>
   timer (trigger 103 (trigger 100 (Debouncer_init 5))) = Some 1 \<and>
   timers (trigger 103 (trigger 100 (Debouncer_init 5)))
     = [\<lparr>wakes_at = 105, finished = True\<rparr>, \<lparr>wakes_at = 108, finished = False\<rparr>]"
proof -
  have h1: "list_all finished (timers (Debouncer_init 5))" by (simp add: Debouncer_init_def)
  have h2: "spaced (wait_time (Debouncer_init 5)) (100 # [103, 107])"
    by (simp add: Debouncer_init_def)
  have t1: "trigger 100 (Debouncer_init 5)
      = \<lparr>wait_time = 5, timer = Some 0, timers = [\<lparr>wakes_at = 105, finished = False\<rparr>],
         invocations = []\<rparr>"
    by (simp add: trigger_def Debouncer_init_def run_timers_def Let_def)
  have t2: "trigger 103 \<lparr>wait_time = 5, timer = Some 0,
        timers = [\<lparr>wakes_at = 105, finished = False\<rparr>], invocations = []\<rparr>
      = \<lparr>wait_time = 5, timer = Some 1,
         timers = [\<lparr>wakes_at = 105, finished = True\<rparr>, \<lparr>wakes_at = 108, finished = False\<rparr>],
         invocations = []\<rparr>"
    by (simp add: trigger_def run_timers_def due_def timer_cancel_def Let_def)
  have f: "wait_time (Debouncer_init 5) = 5" "invocations (Debouncer_init 5) = []"
    by (simp_all add: Debouncer_init_def)
  show ?thesis
    using debounce_coalescing [OF h1 h2, of 111 "trigger 100 (Debouncer_init 5)" 103]
      debounce_coalescing [OF h1 h2, of 112 "trigger 100 (Debouncer_init 5)" 103] h1 h2
    by (simp add: t1 t2 f)
qed

section \<open>Properties of the rendered document\<close>

lemma foldl_append_blocks: "foldl (\<lambda>acc p. acc @ f p) a ps = a @ concat (map f ps)"
  by (induction ps arbitrary: a) simp_all

text \<open>
  C7. The document is the tree part followed by one block per cached path, the paths
  taken in ascending order (strictly ascending, the keys of a dictionary being distinct);
  each block is the marker line of the path followed by the fenced content, which is the
  stored content itself, unchanged whatever characters it contains. A cache holding
  \<^verbatim>\<open>a.js\<close> and \<^verbatim>\<open>b/c.ts\<close> renders the block of \<^verbatim>\<open>a.js\<close> first.
\<close>

theorem generate_markdown_output_sorted_blocks:
  "generate_markdown_output c dir tree =
     ''========== TREE OUTPUT ==========\<newline>'' @ tree @
     ''\<newline>\<newline>========== CODE OUTPUT ==========\<newline>\<newline>'' @
     concat (map (\<lambda>p. file_block p (get_file_content c p)) (get_all_files_sorted c)) \<and>
   sorted (get_all_files_sorted c) \<and>
   set (get_all_files_sorted c) = set (dict_keys c) \<and>
   (distinct (dict_keys c) \<longrightarrow> sorted_wrt (<) (get_all_files_sorted c)) \<and>
   (distinct (dict_keys c) \<and> (p, v) \<in> set c \<longrightarrow> get_file_content c p = v) \<and>
   generate_markdown_output [(''a.js'', ''x''), (''b/c.ts'', ''y'')] dir tree =
     ''========== TREE OUTPUT ==========\<newline>'' @ tree @
     ''\<newline>\<newline>========== CODE OUTPUT ==========\<newline>\<newline>'' @
     file_block ''a.js'' ''x'' @ file_block ''b/c.ts'' ''y''"
proof -
  have shape: "generate_markdown_output c dir tree =
     ''========== TREE OUTPUT ==========\<newline>'' @ tree @
     ''\<newline>\<newline>========== CODE OUTPUT ==========\<newline>\<newline>'' @
     concat (map (\<lambda>p. file_block p (get_file_content c p)) (get_all_files_sorted c))" for c
    using foldl_append_blocks [of "\<lambda>p. file_block p (get_file_content c p)" "[]"
        "get_all_files_sorted c"]
    by (simp add: generate_markdown_output_def file_block_def Let_def)
  have strict: "sorted_wrt (<) (get_all_files_sorted c)" if "distinct (dict_keys c)"
    using that by (simp add: strict_sorted_iff get_all_files_sorted_def)
  have stored: "get_file_content c p = v" if "distinct (dict_keys c)" "(p, v) \<in> set c"
    using that by (simp add: get_file_content_def dict_get_def dict_keys_def)
  have two: "get_all_files_sorted [(''a.js'', ''x''), (''b/c.ts'', ''y'')] = [''a.js'', ''b/c.ts'']"
    by (simp add: get_all_files_sorted_def dict_keys_def)
  have ex: "generate_markdown_output [(''a.js'', ''x''), (''b/c.ts'', ''y'')] dir tree =
     ''========== TREE OUTPUT ==========\<newline>'' @ tree @
     ''\<newline>\<newline>========== CODE OUTPUT ==========\<newline>\<newline>'' @
     file_block ''a.js'' ''x'' @ file_block ''b/c.ts'' ''y''"
    unfolding shape two by (simp add: get_file_content_def dict_get_def)
  show ?thesis
    using shape [of c] strict stored ex by (simp add: get_all_files_sorted_def)
qed

theorem generate_markdown_output_sorted_blocks_witness:
  "distinct (dict_keys [(''b/c.ts'', ''```''), (''a.js'', ''x'')]) \<and>
   (''b/c.ts'', ''```'') \<in> set [(''b/c.ts'', ''```''), (''a.js'', ''x'')] \<and>
   get_all_files_sorted [(''b/c.ts'', ''```''), (''a.js'', ''x'')] = [''a.js'', ''b/c.ts''] \<and>
   sorted_wrt (<) (get_all_files_sorted [(''b/c.ts'', ''```''), (''a.js'', ''x'')]) \<and>
   get_file_content [(''b/c.ts'', ''```''), (''a.js'', ''x'')] ''b/c.ts'' = ''```'' \<and>
   generate_markdown_output [(''b/c.ts'', ''```''), (''a.js'', ''x'')] ''/proj'' ''tree'' =
     ''========== TREE OUTPUT ==========\<newline>tree\<newline>\<newline>========== CODE OUTPUT ==========\<newline>\<newline>'' @
     ''----- FILE: a.js -----\<newline>```\<newline>x\<newline>```\<newline>\<newline>'' @
     ''----- FILE: b/c.ts -----\<newline>```\<newline>```\<newline>```\<newline>\<newline>''"
proof -
  have d: "distinct (dict_keys [(''b/c.ts'', ''```''), (''a.js'', ''x'')])"
    by (simp add: dict_keys_def)
  have s: "get_all_files_sorted [(''b/c.ts'', ''```''), (''a.js'', ''x'')] = [''a.js'', ''b/c.ts'']"
    by (simp add: get_all_files_sorted_def dict_keys_def)
  show ?thesis
    using generate_markdown_output_sorted_blocks
      [of "[(''b/c.ts'', ''```''), (''a.js'', ''x'')]" "''/proj''" "''tree''" "''b/c.ts''" "''```''"] d
    by (simp add: s file_block_def get_file_content_def dict_get_def)
qed

section \<open>Paths below the scanned directory\<close>

lemma split_sep_nonempty [simp]: "split_sep s \<noteq> []"
  by (induction s) (auto split: list.splits)

lemma split_sep_no_sep: "c \<in> set (split_sep s) \<Longrightarrow> CHR ''/'' \<notin> set c"
  by (induction s arbitrary: c) (auto split: list.splits if_splits)

lemma split_sep_plain: "CHR ''/'' \<notin> set n \<Longrightarrow> split_sep n = [n]"
  by (induction n) auto

lemma split_sep_append_sep:
  "split_sep (a @ CHR ''/'' # b) = split_sep a @ split_sep b"
  by (induction a) (auto split: list.splits)

lemma split_sep_sep_join:
  "xs \<noteq> [] \<Longrightarrow> \<forall>c \<in> set xs. CHR ''/'' \<notin> set c \<Longrightarrow> split_sep (sep_join xs) = xs"
proof (induction xs rule: sep_join.induct)
  case 1
  then show ?case by simp
next
  case (2 x)
  then show ?case by (simp add: split_sep_plain)
next
  case (3 x y ys)
  then show ?case by (simp add: split_sep_append_sep split_sep_plain)
qed

lemma plain_not_abs: "plain_name n \<Longrightarrow> \<not> startswith n ''/''"
  by (cases n) (auto simp: plain_name_def startswith_def)

lemma commonprefix_append: "commonprefix xs (xs @ ys) = xs"
  by (induction xs) auto

lemma endswith_sep_iff: "endswith a ''/'' \<longleftrightarrow> (\<exists>b. a = b @ ''/'')"
proof
  assume "endswith a ''/''"
  then have "a \<noteq> []" and "drop (length a - 1) a = ''/''" by (auto simp: endswith_def)
  then have "a = take (length a - 1) a @ ''/''"
    by (metis append_take_drop_id)
  then show "\<exists>b. a = b @ ''/''" ..
next
  assume "\<exists>b. a = b @ ''/''"
  then show "endswith a ''/''" by (auto simp: endswith_def)
qed

lemma path_join_plain:
  "plain_name n \<Longrightarrow>
   path_join a n = (if a = [] \<or> endswith a ''/'' then a @ n else a @ ''/'' @ n)"
  by (simp add: path_join_def plain_not_abs)

lemma startswith_append: "startswith a ''/'' \<Longrightarrow> startswith (a @ b) ''/''"
  by (cases a) (auto simp: startswith_def)

lemma endswith_sep_last: "endswith a ''/'' \<longleftrightarrow> a \<noteq> [] \<and> last a = CHR ''/''"
  by (cases a rule: rev_cases) (auto simp: endswith_def)

lemma endswith_append_sep: "b \<noteq> [] \<Longrightarrow> endswith (a @ b) ''/'' = endswith b ''/''"
  by (simp add: endswith_sep_last)

lemma endswith_Cons_sep: "b \<noteq> [] \<Longrightarrow> endswith (c # b) ''/'' = endswith b ''/''"
  using endswith_append_sep [of b "[c]"] by simp

lemma abs_join_plain:
  assumes "plain_name n"
  shows "(if startswith (path_join x n) ''/'' then path_join x n else path_join cwd (path_join x n))
       = path_join (if startswith x ''/'' then x else path_join cwd x) n"
proof (cases "startswith x ''/''")
  case True
  then show ?thesis using assms by (simp add: path_join_plain startswith_append)
next
  case False
  have nn: "\<not> startswith n ''/''" using assms by (rule plain_not_abs)
  have ne: "n \<noteq> []" using assms by (simp add: plain_name_def)
  show ?thesis
  proof (cases "x = []")
    case True
    then show ?thesis using nn assms ne
      by (auto simp: path_join_def startswith_def endswith_def)
  next
    case xne: False
    have r: "\<not> startswith (path_join x n) ''/''"
      using False xne assms by (cases x) (auto simp: path_join_plain startswith_def)
    have r2: "\<not> startswith (a @ b) ''/''" if "\<not> startswith a ''/''" "a \<noteq> []" for a b :: string
      using that by (cases a) (auto simp: startswith_def)
    show ?thesis
      using False xne r assms nn ne
      by (auto simp: path_join_def endswith_append_sep endswith_Cons_sep r2)
  qed
qed

lemma initial_slashes_append:
  "startswith b ''/'' \<Longrightarrow> \<not> startswith s ''/'' \<Longrightarrow>
   initial_slashes (b @ s) = initial_slashes b"
proof -
  assume b: "startswith b ''/''" and s: "\<not> startswith s ''/''"
  then obtain r where br: "b = CHR ''/'' # r" by (cases b) (auto simp: startswith_def)
  show ?thesis
  proof (cases r)
    case Nil
    then show ?thesis using br s by (cases s) (auto simp: initial_slashes_def startswith_def)
  next
    case (Cons c r')
    show ?thesis
    proof (cases r')
      case Nil
      then show ?thesis using br Cons s
        by (cases s) (auto simp: initial_slashes_def startswith_def)
    next
      case (Cons c' r'')
      then show ?thesis using br \<open>r = c # r'\<close>
        by (auto simp: initial_slashes_def startswith_def)
    qed
  qed
qed

lemma path_join_abs:
  assumes "startswith b ''/''" and "plain_name n"
  shows "startswith (path_join b n) ''/''"
    and "initial_slashes (path_join b n) = initial_slashes b"
    and "path_join b n \<noteq> []"
proof -
  have nn: "\<not> startswith n ''/''" using assms(2) by (rule plain_not_abs)
  have n2: "\<not> startswith (''/'' @ n) ''/'' \<Longrightarrow> False" by (simp add: startswith_def)
  show "startswith (path_join b n) ''/''"
    using assms by (simp add: path_join_plain startswith_append)
  show "path_join b n \<noteq> []"
    using assms by (auto simp: path_join_plain plain_name_def)
  show "initial_slashes (path_join b n) = initial_slashes b"
  proof (cases "endswith b ''/''")
    case True
    then show ?thesis
      using assms initial_slashes_append [OF assms(1) nn] by (simp add: path_join_plain)
  next
    case False
    have "initial_slashes (b @ ''/'' @ n) = initial_slashes (b @ ''/'')"
      using initial_slashes_append [of "b @ ''/''" n] assms(1) nn
      by (simp add: startswith_append)
    moreover have "initial_slashes (b @ ''/'') = initial_slashes b"
    proof -
      from assms(1) obtain r where br: "b = CHR ''/'' # r"
        by (cases b) (auto simp: startswith_def)
      from False br have "r \<noteq> []" by (auto simp: endswith_def)
      then obtain c r' where r: "r = c # r'" by (cases r) auto
      from False br r have "c = CHR ''/'' \<Longrightarrow> r' \<noteq> []" by (auto simp: endswith_def)
      then show ?thesis using br r
        by (cases r') (auto simp: initial_slashes_def startswith_def)
    qed
    ultimately show ?thesis using False assms by (auto simp: path_join_plain startswith_def)
  qed
qed

lemma norm_step_plain: "plain_name n \<Longrightarrow> norm_step k comps n = comps @ [n]"
  by (simp add: norm_step_def plain_name_def)

lemma norm_step_empty: "norm_step k comps [] = comps"
  by (simp add: norm_step_def)

lemma split_sep_path_join:
  assumes "plain_name n" and "b \<noteq> []"
  shows "foldl (norm_step k) [] (split_sep (path_join b n))
       = foldl (norm_step k) [] (split_sep b) @ [n]"
proof (cases "endswith b ''/''")
  case True
  then obtain b' where b': "b = b' @ ''/''" by (auto simp: endswith_sep_iff)
  have n: "split_sep n = [n]" using assms(1) by (simp add: split_sep_plain plain_name_def)
  have "split_sep (path_join b n) = split_sep b' @ [n]"
    using True assms b' n by (simp add: path_join_plain split_sep_append_sep)
  moreover have "split_sep b = split_sep b' @ [[]]"
    using b' by (simp add: split_sep_append_sep)
  ultimately show ?thesis using assms(1) by (simp add: norm_step_plain norm_step_empty)
next
  case False
  have n: "split_sep n = [n]" using assms(1) by (simp add: split_sep_plain plain_name_def)
  have "split_sep (path_join b n) = split_sep b @ [n]"
    using False assms n by (simp add: path_join_plain split_sep_append_sep)
  then show ?thesis using assms(1) by (simp add: norm_step_plain)
qed

lemma descend_abs:
  assumes "startswith b ''/''" and "list_all plain_name ns"
  shows "startswith (foldl path_join b ns) ''/'' \<and>
         initial_slashes (foldl path_join b ns) = initial_slashes b \<and>
         foldl path_join b ns \<noteq> [] \<and>
         foldl (norm_step k) [] (split_sep (foldl path_join b ns))
           = foldl (norm_step k) [] (split_sep b) @ ns"
  using assms
proof (induction ns arbitrary: b)
  case Nil
  then show ?case by (auto simp: startswith_def)
next
  case (Cons n ns)
  then have pn: "plain_name n" and pns: "list_all plain_name ns" by simp_all
  have bne: "b \<noteq> []" using Cons.prems(1) by (auto simp: startswith_def)
  note j = path_join_abs [OF Cons.prems(1) pn]
  from Cons.IH [OF j(1) pns] show ?case
    by (simp add: j(2) split_sep_path_join [OF pn bne])
qed

lemma abs_descend:
  "list_all plain_name ns \<Longrightarrow>
   (if startswith (foldl path_join x ns) ''/'' then foldl path_join x ns
    else path_join cwd (foldl path_join x ns))
   = foldl path_join (if startswith x ''/'' then x else path_join cwd x) ns"
proof (induction ns arbitrary: x)
  case Nil
  then show ?case by simp
next
  case (Cons n ns)
  then have pn: "plain_name n" and pns: "list_all plain_name ns" by simp_all
  show ?case
    unfolding foldl_Cons Cons.IH [OF pns] abs_join_plain [OF pn] by (rule refl)
qed

lemma split_sep_good: "c \<in> set (foldl (norm_step k) acc (split_sep p)) \<Longrightarrow>
   c \<in> set acc \<or> (c \<noteq> [] \<and> CHR ''/'' \<notin> set c)"
proof -
  have "c \<in> set (foldl (norm_step k) acc xs) \<Longrightarrow>
     c \<in> set acc \<or> (c \<noteq> [] \<and> c \<in> set xs)" for xs
  proof (induction xs arbitrary: acc)
    case Nil
    then show ?case by simp
  next
    case (Cons x xs)
    from Cons.prems have "c \<in> set (foldl (norm_step k) (norm_step k acc x) xs)" by simp
    from Cons.IH [OF this] show ?case
      by (auto simp: norm_step_def split: if_splits dest: in_set_butlastD)
  qed
  then show "c \<in> set (foldl (norm_step k) acc (split_sep p)) \<Longrightarrow>
   c \<in> set acc \<or> (c \<noteq> [] \<and> CHR ''/'' \<notin> set c)"
    using split_sep_no_sep by blast
qed

lemma sep_join_good_head:
  "\<forall>c \<in> set xs. c \<noteq> [] \<and> CHR ''/'' \<notin> set c \<Longrightarrow>
   dropWhile (\<lambda>c. c = CHR ''/'') (sep_join xs) = sep_join xs"
proof (cases xs)
  case Nil
  then show ?thesis by simp
next
  case (Cons x xs')
  assume g: "\<forall>c \<in> set xs. c \<noteq> [] \<and> CHR ''/'' \<notin> set c"
  then obtain a x' where x: "x = a # x'" and a: "a \<noteq> CHR ''/''"
    using Cons by (cases x) auto
  show ?thesis using Cons x a by (cases xs') simp_all
qed

lemma sep_join_eq_Nil: "\<forall>c \<in> set xs. c \<noteq> [] \<Longrightarrow> sep_join xs = [] \<longleftrightarrow> xs = []"
  by (induction xs rule: sep_join.induct) auto

lemma split_tail_normal:
  assumes "\<forall>c \<in> set xs. c \<noteq> [] \<and> CHR ''/'' \<notin> set c"
  shows "split_tail (replicate k CHR ''/'' @ sep_join xs) = xs"
proof -
  have d: "dropWhile (\<lambda>c. c = CHR ''/'') (replicate k CHR ''/'' @ sep_join xs) = sep_join xs"
    using sep_join_good_head [OF assms] by (induction k) simp_all
  show ?thesis
  proof (cases "xs = []")
    case True
    then show ?thesis by (simp add: split_tail_def d)
  next
    case False
    then have "sep_join xs \<noteq> []" using assms by (simp add: sep_join_eq_Nil)
    then show ?thesis
      using False assms by (simp add: split_tail_def d split_sep_sep_join)
  qed
qed

lemma normpath_abs:
  assumes "startswith p ''/''"
  shows "normpath p = replicate (initial_slashes p) CHR ''/''
           @ sep_join (foldl (norm_step (initial_slashes p)) [] (split_sep p))"
proof -
  have "p \<noteq> []" using assms by (auto simp: startswith_def)
  moreover have "0 < initial_slashes p" using assms by (simp add: initial_slashes_def)
  ultimately show ?thesis by (simp add: normpath_def Let_def)
qed

lemma split_tail_normpath:
  assumes "startswith p ''/''"
  shows "split_tail (normpath p) = foldl (norm_step (initial_slashes p)) [] (split_sep p)"
  unfolding normpath_abs [OF assms]
  by (rule split_tail_normal) (use split_sep_good [of _ _ "[]"] in auto)

lemma to_abs_abs:
  "startswith cwd ''/'' \<Longrightarrow> startswith (if startswith x ''/'' then x else path_join cwd x) ''/''"
  by (cases cwd) (auto simp: path_join_def startswith_def)

lemma relpath_descend:
  assumes cwd: "startswith cwd ''/''" and ns: "list_all plain_name ns" and ne: "ns \<noteq> []"
  shows "relpath cwd (foldl path_join dir ns) dir = Inr (sep_join ns)"
proof -
  let ?b = "if startswith dir ''/'' then dir else path_join cwd dir"
  let ?p = "foldl path_join dir ns"
  have b: "startswith ?b ''/''" using cwd by (rule to_abs_abs)
  have ap: "abspath cwd ?p = normpath (foldl path_join ?b ns)"
    unfolding abspath_def abs_descend [OF ns] by (rule refl)
  have ab: "abspath cwd dir = normpath ?b"
    by (simp add: abspath_def)
  note d = descend_abs [OF b ns, of "initial_slashes ?b"]
  let ?S = "foldl (norm_step (initial_slashes ?b)) [] (split_sep ?b)"
  have s1: "split_tail (abspath cwd dir) = ?S"
    unfolding ab by (rule split_tail_normpath [OF b])
  have s2: "split_tail (abspath cwd ?p) = ?S @ ns"
    unfolding ap using split_tail_normpath [of "foldl path_join ?b ns"] d by simp
  have pne: "?p \<noteq> []"
  proof -
    from ne obtain ms n where ms: "ns = ms @ [n]" by (metis rev_exhaust)
    with ns have "plain_name n" by simp
    then show ?thesis unfolding ms
      by (auto simp: path_join_plain plain_name_def)
  qed
  show ?thesis
    using pne ne unfolding relpath_def s1 s2 Let_def
    by (simp add: commonprefix_append)
qed

lemma parent_dirs_sep_join:
  "list_all plain_name (ds @ [f]) \<Longrightarrow> parent_dirs (sep_join (ds @ [f])) = ds"
  by (simp add: parent_dirs_def split_sep_sep_join list_all_iff plain_name_def)

section \<open>Properties of the initial scan\<close>

lemma foldl_sum_invariant:
  assumes "I a" and "\<And>x a. x \<in> set xs \<Longrightarrow> I a \<Longrightarrow> \<exists>b. f a x = Inr b \<and> I b"
  shows "\<exists>b. foldl (\<lambda>acc x. case acc of Inl e \<Rightarrow> Inl e | Inr a \<Rightarrow> f a x) (Inr a) xs = Inr b \<and> I b"
  using assms
proof (induction xs arbitrary: a)
  case Nil
  then show ?case by simp
next
  case (Cons x xs)
  from Cons.prems(2) [of x a] Cons.prems(1) obtain b where b: "f a x = Inr b" "I b" by auto
  have "\<exists>c. foldl (\<lambda>acc x. case acc of Inl e \<Rightarrow> Inl e | Inr a \<Rightarrow> f a x) (Inr b) xs = Inr c \<and> I c"
    by (rule Cons.IH [OF b(2)]) (use Cons.prems(2) in auto)
  then show ?case by (simp add: b(1))
qed

lemma plain_file_names:
  "list_all plain_node es \<Longrightarrow> f \<in> set (file_names es) \<Longrightarrow> plain_name f"
  by (induction es rule: file_names.induct) auto

lemma plain_lookup_dir:
  "list_all plain_node es \<Longrightarrow> lookup_dir d es = Some sub \<Longrightarrow>
   plain_name d \<and> list_all plain_node sub"
  by (induction d es rule: lookup_dir.induct) (auto split: if_splits)

lemma dict_set_keys: "set (dict_keys (dict_set c k v)) = insert k (set (dict_keys c))"
  by (auto simp: dict_set_def dict_keys_def update_keys)

lemma keys_outside_store:
  assumes "keys_outside X c" and "list_all (\<lambda>d. d \<notin> set X) (parent_dirs k)"
  shows "keys_outside X (read_and_store_file fs c p k)"
proof (cases "fs p")
  case (Readable content)
  then show ?thesis
    using assms by (simp add: keys_outside_def read_and_store_file_def list_all_iff dict_set_keys)
qed (use assms in \<open>simp_all add: read_and_store_file_def\<close>)

lemma scan_file_outside:
  assumes cwd: "startswith cwd ''/''" and ds: "list_all plain_name ds"
    and out: "list_all (\<lambda>d. d \<notin> set X) ds" and f: "plain_name f" and c: "keys_outside X c"
  shows "\<exists>c'. scan_file cwd fs dir exts excs sens pats (foldl path_join dir ds) c f = Inr c' \<and>
              keys_outside X c'"
proof -
  have p: "list_all plain_name (ds @ [f])" using ds f by simp
  have r: "relpath cwd (path_join (foldl path_join dir ds) f) dir = Inr (sep_join (ds @ [f]))"
    using relpath_descend [OF cwd p, of dir] by simp
  have "list_all (\<lambda>d. d \<notin> set X) (parent_dirs (sep_join (ds @ [f])))"
    using out by (simp add: parent_dirs_sep_join [OF p])
  then show ?thesis
    using c by (simp add: scan_file_def r Let_def keys_outside_store)
qed

lemma scan_body_outside:
  assumes cwd: "startswith cwd ''/''" and ds: "list_all plain_name ds"
    and out: "list_all (\<lambda>d. d \<notin> set X) ds" and fs: "list_all plain_name files"
    and c: "keys_outside X c"
  shows "\<exists>c'. scan_body cwd fs dir exts excs X sens pats c (foldl path_join dir ds) dirs files
               = Inr (sort (filter (\<lambda>d. d \<notin> set X) dirs), sort files, c') \<and>
              keys_outside X c'"
proof -
  have "\<exists>c'. foldl (\<lambda>acc file. case acc of Inl e \<Rightarrow> Inl e
                 | Inr c \<Rightarrow> scan_file cwd fs dir exts excs sens pats (foldl path_join dir ds) c file)
               (Inr c) (sort files) = Inr c' \<and> keys_outside X c'"
  proof (rule foldl_sum_invariant [where I = "keys_outside X", OF c])
    fix x a
    assume "x \<in> set (sort files)" and a: "keys_outside X a"
    then have "plain_name x" using fs by (simp add: list_all_iff)
    then show "\<exists>b. scan_file cwd fs dir exts excs sens pats (foldl path_join dir ds) a x = Inr b \<and>
                  keys_outside X b"
      by (rule scan_file_outside [OF cwd ds out _ a])
  qed
  then show ?thesis by (auto simp: scan_body_def Let_def)
qed

lemma lookup_dir_smaller:
  "lookup_dir d es = Some sub \<Longrightarrow> size_list size sub < size_list size es"
  by (induction d es rule: lookup_dir.induct) (auto split: if_splits)

lemma os_walk_scan:
  assumes cwd: "startswith cwd ''/''"
  shows "list_all plain_name ds \<Longrightarrow> list_all (\<lambda>d. d \<notin> set X) ds \<Longrightarrow>
     list_all plain_node entries \<Longrightarrow> keys_outside X s \<Longrightarrow>
     \<exists>visits c. os_walk (scan_body cwd fs dir exts excs X sens pats)
                   (foldl path_join dir ds) entries s = Inr (visits, c) \<and>
        keys_outside X c \<and> list_all (visit_sorted X) visits \<and>
        list_all (\<lambda>v. \<exists>ds'. fst v = foldl path_join dir ds' \<and> list_all plain_name ds' \<and>
              list_all (\<lambda>d. d \<notin> set X) ds')
          visits"
proof (induction entries arbitrary: ds s rule: measure_induct_rule [of "size_list size"])
  case (less entries)
  let ?body = "scan_body cwd fs dir exts excs X sens pats"
  let ?here = "foldl path_join dir ds"
  let ?dirs = "sort (filter (\<lambda>d. d \<notin> set X) (dir_names entries))"
  let ?files = "sort (file_names entries)"
  let ?visited = "\<lambda>v::visit. \<exists>ds'. fst v = foldl path_join dir ds' \<and> list_all plain_name ds' \<and>
              list_all (\<lambda>d. d \<notin> set X) ds'"
  let ?I = "\<lambda>a::visit list \<times> cache.
      keys_outside X (snd a) \<and> list_all (visit_sorted X) (fst a) \<and> list_all ?visited (fst a)"
  let ?f = "\<lambda>(a::visit list \<times> cache) dirname.
      case a of (visits, s2) \<Rightarrow>
        (case lookup_dir dirname entries of
           None \<Rightarrow> Inr (visits, s2)
         | Some sub \<Rightarrow>
             (case os_walk ?body (path_join ?here dirname) sub s2 of
                Inl e \<Rightarrow> Inl e
              | Inr (visits', s3) \<Rightarrow> Inr (visits @ visits', s3)))"
  have files: "list_all plain_name (file_names entries)"
    using less.prems(3) by (auto simp: list_all_iff intro: plain_file_names)
  from scan_body_outside [OF cwd less.prems(1,2) files less.prems(4), of fs dir exts excs sens pats
      "dir_names entries"]
  obtain c1 where c1: "?body s ?here (dir_names entries) (file_names entries)
      = Inr (?dirs, ?files, c1)" "keys_outside X c1"
    by auto
  have init: "?I ([(?here, ?dirs, ?files)], c1)"
    using c1(2) less.prems(1,2)
    by (auto simp: visit_sorted_def list_all_iff intro!: exI [of _ ds])
  have step: "\<exists>b. ?f a x = Inr b \<and> ?I b" if x: "x \<in> set ?dirs" and a: "?I a" for x a
  proof (cases "lookup_dir x entries")
    case None
    then show ?thesis using a by (cases a) simp
  next
    case (Some sub)
    obtain visits s2 where av: "a = (visits, s2)" by (cases a)
    from x have xo: "x \<notin> set X" by simp
    from plain_lookup_dir [OF less.prems(3) Some]
    have px: "plain_name x" and ps: "list_all plain_node sub" by simp_all
    have "\<exists>visits' c. os_walk ?body (foldl path_join dir (ds @ [x])) sub s2 = Inr (visits', c) \<and>
        keys_outside X c \<and> list_all (visit_sorted X) visits' \<and> list_all ?visited visits'"
      by (rule less.IH [OF lookup_dir_smaller [OF Some]])
        (use less.prems(1,2) px xo ps a av in simp_all)
    then obtain visits' c where w: "os_walk ?body (path_join ?here x) sub s2 = Inr (visits', c)"
      "keys_outside X c" "list_all (visit_sorted X) visits'" "list_all ?visited visits'"
      by auto
    show ?thesis using a w by (simp add: av Some)
  qed
  from foldl_sum_invariant [where I = ?I and f = ?f, OF init step]
  obtain b where b: "foldl (\<lambda>acc x. case acc of Inl e \<Rightarrow> Inl e | Inr a \<Rightarrow> ?f a x)
      (Inr ([(?here, ?dirs, ?files)], c1)) ?dirs = Inr b" "?I b"
    by blast
  have "os_walk ?body ?here entries s = Inr b"
    by (subst os_walk.simps) (simp add: c1(1) b(1) [symmetric] case_prod_unfold)
  then show ?case using b(2) by (cases b) auto
qed

lemma prune_names:
  "dir_names (map (prune X) es) = dir_names es"
  "file_names (map (prune X) es) = file_names es"
  by (induction es rule: dir_names.induct) auto

lemma prune_lookup_dir:
  "d \<notin> set X \<Longrightarrow>
   lookup_dir d (map (prune X) es) = map_option (map (prune X)) (lookup_dir d es)"
  by (induction d es rule: lookup_dir.induct) auto

lemma os_walk_prune:
  assumes body: "\<And>s h ds fs dirs files s1.
      body s h ds fs = Inr (dirs, files, s1) \<Longrightarrow> list_all (\<lambda>d. d \<notin> set X) dirs"
  shows "os_walk body here (map (prune X) entries) s = os_walk body here entries s"
proof (induction entries arbitrary: here s rule: measure_induct_rule [of "size_list size"])
  case (less entries)
  show ?case
  proof (cases "body s here (dir_names entries) (file_names entries)")
    case (Inl e)
    then show ?thesis
      unfolding os_walk.simps [of body here "map (prune X) entries" s]
        os_walk.simps [of body here entries s]
      by (simp add: prune_names)
  next
    case (Inr r)
    obtain dirs files s1 where r: "r = (dirs, files, s1)" by (cases r)
    from body [of s here "dir_names entries" "file_names entries" dirs files s1] Inr r
    have out: "list_all (\<lambda>d. d \<notin> set X) dirs" by simp
    have same: "foldl (\<lambda>acc dirname.
                   case acc of
                     Inl e \<Rightarrow> Inl e
                   | Inr (visits, s2) \<Rightarrow>
                       (case lookup_dir dirname (map (prune X) entries) of
                          None \<Rightarrow> Inr (visits, s2)
                        | Some sub \<Rightarrow>
                            (case os_walk body (path_join here dirname) sub s2 of
                               Inl e \<Rightarrow> Inl e
                             | Inr (visits', s3) \<Rightarrow> Inr (visits @ visits', s3))))
                (Inr ([(here, dirs, files)], s1)) dirs
             = foldl (\<lambda>acc dirname.
                   case acc of
                     Inl e \<Rightarrow> Inl e
                   | Inr (visits, s2) \<Rightarrow>
                       (case lookup_dir dirname entries of
                          None \<Rightarrow> Inr (visits, s2)
                        | Some sub \<Rightarrow>
                            (case os_walk body (path_join here dirname) sub s2 of
                               Inl e \<Rightarrow> Inl e
                             | Inr (visits', s3) \<Rightarrow> Inr (visits @ visits', s3))))
                (Inr ([(here, dirs, files)], s1)) dirs"
    proof (rule foldl_cong [OF refl refl])
      fix acc dirname
      assume "dirname \<in> set dirs"
      then have d: "dirname \<notin> set X" using out by (simp add: list_all_iff)
      show "(case acc of
                     Inl e \<Rightarrow> Inl e
                   | Inr (visits, s2) \<Rightarrow>
                       (case lookup_dir dirname (map (prune X) entries) of
                          None \<Rightarrow> Inr (visits, s2)
                        | Some sub \<Rightarrow>
                            (case os_walk body (path_join here dirname) sub s2 of
                               Inl e \<Rightarrow> Inl e
                             | Inr (visits', s3) \<Rightarrow> Inr (visits @ visits', s3))))
          = (case acc of
                     Inl e \<Rightarrow> Inl e
                   | Inr (visits, s2) \<Rightarrow>
                       (case lookup_dir dirname entries of
                          None \<Rightarrow> Inr (visits, s2)
                        | Some sub \<Rightarrow>
                            (case os_walk body (path_join here dirname) sub s2 of
                               Inl e \<Rightarrow> Inl e
                             | Inr (visits', s3) \<Rightarrow> Inr (visits @ visits', s3))))"
      proof (cases "lookup_dir dirname entries")
        case None
        then show ?thesis by (simp add: prune_lookup_dir [OF d] split: sum.split prod.split)
      next
        case (Some sub)
        have "os_walk body (path_join here dirname) (map (prune X) sub) s2
            = os_walk body (path_join here dirname) sub s2" for s2
          by (rule less.IH [OF lookup_dir_smaller [OF Some]])
        then show ?thesis
          by (simp add: prune_lookup_dir [OF d] Some split: sum.split prod.split)
      qed
    qed
    show ?thesis
      unfolding os_walk.simps [of body here "map (prune X) entries" s]
        os_walk.simps [of body here entries s]
      by (simp add: prune_names Inr r same)
  qed
qed

lemma scan_body_dirs:
  "scan_body cwd fs dir exts excs X sens pats s h ds fls = Inr (dirs, files, s1) \<Longrightarrow>
   list_all (\<lambda>d. d \<notin> set X) dirs"
  by (auto simp: scan_body_def Let_def list_all_iff split: sum.splits)

lemma foldl_sum_Inl:
  "foldl (\<lambda>acc x. case acc of Inl e \<Rightarrow> Inl e | Inr a \<Rightarrow> f a x) (Inl e) xs = Inl e"
  by (induction xs) simp_all

lemma store_visits_Nil: "store_visits cwd fs dir exts excs sens pats c [] = Inr c"
  by (simp add: store_visits_def)

lemma store_visits_Cons:
  "store_visits cwd fs dir exts excs sens pats c (v # vs) =
     (case store_visit cwd fs dir exts excs sens pats c v of
        Inl e \<Rightarrow> Inl e
      | Inr c' \<Rightarrow> store_visits cwd fs dir exts excs sens pats c' vs)"
  by (cases "store_visit cwd fs dir exts excs sens pats c v")
    (simp_all add: store_visits_def foldl_sum_Inl)

lemma store_visits_append:
  "store_visits cwd fs dir exts excs sens pats c (vs @ ws) =
     (case store_visits cwd fs dir exts excs sens pats c vs of
        Inl e \<Rightarrow> Inl e
      | Inr c' \<Rightarrow> store_visits cwd fs dir exts excs sens pats c' ws)"
  by (induction vs arbitrary: c) (simp_all add: store_visits_Nil store_visits_Cons split: sum.split)

lemma scan_body_result:
  "scan_body cwd fs dir exts excs X sens pats s here dnames fnames = Inr (dirs, files, c1) \<Longrightarrow>
   dirs = sort (filter (\<lambda>d. d \<notin> set X) dnames) \<and> files = sort fnames \<and>
   store_visit cwd fs dir exts excs sens pats s (here, dirs, files) = Inr c1"
  by (auto simp: scan_body_def store_visit_def Let_def split: sum.splits)

lemma os_walk_dirs_visits:
  fixes body :: "cache \<Rightarrow> string \<Rightarrow> string list \<Rightarrow> string list \<Rightarrow> error + string list \<times> string list \<times> cache"
  assumes sub: "\<And>d sub s2 v' c'. d \<in> set ds \<Longrightarrow> lookup_dir d entries = Some sub \<Longrightarrow>
        os_walk body (path_join here d) sub s2 = Inr (v', c') \<Longrightarrow>
        v' = spec_visits X (path_join here d) sub \<and>
        store_visits cwd fs dir exts excs sens pats s2 v' = Inr c'"
    and run: "foldl (\<lambda>acc dirname.
                   case acc of
                     Inl e \<Rightarrow> Inl e
                   | Inr (visits, s2) \<Rightarrow>
                       (case lookup_dir dirname entries of
                          None \<Rightarrow> Inr (visits, s2)
                        | Some sub \<Rightarrow>
                            (case os_walk body (path_join here dirname) sub s2 of
                               Inl e \<Rightarrow> Inl e
                             | Inr (visits', s3) \<Rightarrow> Inr (visits @ visits', s3))))
                (Inr (vs0, a)) ds = Inr (vs, c)"
  shows "vs = vs0 @ concat (map (\<lambda>d. case lookup_dir d entries of
                          None \<Rightarrow> []
                        | Some sub \<Rightarrow> spec_visits X (path_join here d) sub) ds) \<and>
         store_visits cwd fs dir exts excs sens pats a
           (concat (map (\<lambda>d. case lookup_dir d entries of
                          None \<Rightarrow> []
                        | Some sub \<Rightarrow> spec_visits X (path_join here d) sub) ds)) = Inr c"
  supply os_walk.simps [simp del] spec_visits.simps [simp del]
  using assms
proof (induction ds arbitrary: vs0 a)
  case Nil
  then show ?case by (simp add: store_visits_Nil)
next
  case (Cons d ds)
  let ?F = "\<lambda>acc dirname.
                   case acc of
                     Inl e \<Rightarrow> Inl e
                   | Inr (visits, s2) \<Rightarrow>
                       (case lookup_dir dirname entries of
                          None \<Rightarrow> Inr (visits, s2)
                        | Some sub \<Rightarrow>
                            (case os_walk body (path_join here dirname) sub s2 of
                               Inl e \<Rightarrow> Inl e
                             | Inr (visits', s3) \<Rightarrow> Inr (visits @ visits', s3)))"
  have absorb: "foldl ?F (Inl e) ds = Inl e" for e
    by (induction ds) simp_all
  have sub': "v' = spec_visits X (path_join here d') sub \<and>
        store_visits cwd fs dir exts excs sens pats s2 v' = Inr c'"
    if "d' \<in> set ds" "lookup_dir d' entries = Some sub"
      "os_walk body (path_join here d') sub s2 = Inr (v', c')" for d' sub s2 v' c'
    by (rule Cons.prems(1)) (use that in simp_all)
  let ?G = "\<lambda>d. case lookup_dir d entries of
                          None \<Rightarrow> []
                        | Some sub \<Rightarrow> spec_visits X (path_join here d) sub"
  have ih: "vs = vs1 @ concat (map ?G ds) \<and>
      store_visits cwd fs dir exts excs sens pats a1 (concat (map ?G ds)) = Inr c"
    if "foldl ?F (Inr (vs1, a1)) ds = Inr (vs, c)" for vs1 a1
    by (rule Cons.IH [OF _ that]) (rule sub'; assumption)
  show ?case
  proof (cases "lookup_dir d entries")
    case None
    then have "foldl ?F (Inr (vs0, a)) ds = Inr (vs, c)" using Cons.prems(2) by simp
    from ih [OF this] show ?thesis by (simp add: None)
  next
    case (Some sub)
    show ?thesis
    proof (cases "os_walk body (path_join here d) sub a")
      case (Inl e)
      then have "foldl ?F (Inl e) ds = Inr (vs, c)" using Cons.prems(2) Some by simp
      then show ?thesis by (simp add: absorb)
    next
      case (Inr r)
      obtain v' s3 where r: "r = (v', s3)" by (cases r)
      have "v' = spec_visits X (path_join here d) sub \<and>
          store_visits cwd fs dir exts excs sens pats a v' = Inr s3"
        by (rule Cons.prems(1) [of d sub a v' s3]) (simp_all add: Some Inr r)
      then have v': "?G d = v'"
        and st: "store_visits cwd fs dir exts excs sens pats a v' = Inr s3"
        by (auto simp: Some)
      have "foldl ?F (Inr (vs0 @ v', s3)) ds = Inr (vs, c)"
        using Cons.prems(2) Some Inr r by simp
      from ih [OF this] have "vs = (vs0 @ v') @ concat (map ?G ds)"
        and "store_visits cwd fs dir exts excs sens pats s3 (concat (map ?G ds)) = Inr c"
        by simp_all
      then show ?thesis
        unfolding list.map concat.simps v' by (simp add: store_visits_append st)
    qed
  qed
qed

lemma os_walk_spec_visits:
  "os_walk (scan_body cwd fs dir exts excs X sens pats) here entries s = Inr (visits, c) \<Longrightarrow>
   visits = spec_visits X here entries \<and>
   store_visits cwd fs dir exts excs sens pats s visits = Inr c"
  supply os_walk.simps [simp del] spec_visits.simps [simp del]
proof (induction entries arbitrary: here s visits c rule: measure_induct_rule [of "size_list size"])
  case (less entries)
  let ?body = "scan_body cwd fs dir exts excs X sens pats"
  let ?dirs = "sort (filter (\<lambda>d. d \<notin> set X) (dir_names entries))"
  let ?files = "sort (file_names entries)"
  from less.prems obtain r where b: "?body s here (dir_names entries) (file_names entries) = Inr r"
    by (subst (asm) os_walk.simps) (auto split: sum.splits)
  obtain dirs files c1 where r: "r = (dirs, files, c1)" by (cases r)
  from scan_body_result [OF b [unfolded r]]
  have d: "dirs = ?dirs" and f: "files = ?files"
    and st: "store_visit cwd fs dir exts excs sens pats s (here, ?dirs, ?files) = Inr c1"
    by auto
  have run: "foldl (\<lambda>acc dirname.
                   case acc of
                     Inl e \<Rightarrow> Inl e
                   | Inr (visits, s2) \<Rightarrow>
                       (case lookup_dir dirname entries of
                          None \<Rightarrow> Inr (visits, s2)
                        | Some sub \<Rightarrow>
                            (case os_walk ?body (path_join here dirname) sub s2 of
                               Inl e \<Rightarrow> Inl e
                             | Inr (visits', s3) \<Rightarrow> Inr (visits @ visits', s3))))
                (Inr ([(here, ?dirs, ?files)], c1)) ?dirs = Inr (visits, c)"
    using less.prems by (subst (asm) os_walk.simps) (simp add: b r d f)
  have "visits = [(here, ?dirs, ?files)] @ concat (map (\<lambda>d. case lookup_dir d entries of
                          None \<Rightarrow> []
                        | Some sub \<Rightarrow> spec_visits X (path_join here d) sub) ?dirs) \<and>
         store_visits cwd fs dir exts excs sens pats c1
           (concat (map (\<lambda>d. case lookup_dir d entries of
                          None \<Rightarrow> []
                        | Some sub \<Rightarrow> spec_visits X (path_join here d) sub) ?dirs)) = Inr c"
  proof (rule os_walk_dirs_visits [OF _ run])
    fix d sub s2 v' c'
    assume "lookup_dir d entries = Some sub"
      and "os_walk ?body (path_join here d) sub s2 = Inr (v', c')"
    then show "v' = spec_visits X (path_join here d) sub \<and>
        store_visits cwd fs dir exts excs sens pats s2 v' = Inr c'"
      using less.IH [OF lookup_dir_smaller] by blast
  qed
  then show ?case
    by (subst spec_visits.simps) (simp add: store_visits_Cons st)
qed

text \<open>
  C6. For a tree of directory entries as a file system has them and an absolute working
  directory, the scan succeeds, and the cache it leaves does not depend on what the cache
  held before. The visits of the walk are exactly those of the description: each
  directory with all its not excluded directory names and all its file names, each list
  sorted, the directories entered in that order; and the cache is what storing the files
  of these visits, one after the other in the order of the lists, makes of the empty
  dictionary. No key of the cache has a directory named in \<^verbatim>\<open>exclude_dirs\<close> on its way,
  whatever the file names and the other filter rules are; every visited directory is the
  scanned directory followed by names that are not excluded; and the scan of the tree
  with everything below excluded directories taken away gives the very same visits and
  cache, so nothing below an excluded directory is looked at.
\<close>

theorem load_initial_cache_prunes:
  assumes "startswith cwd ''/''" and "list_all plain_node tree"
  shows "\<exists>visits c.
      scan cwd fs tree c0 dir exts excs X sens pats = Inr (visits, c) \<and>
      load_initial_cache cwd fs tree c0 dir exts excs X sens pats = Inr c \<and>
      load_initial_cache cwd fs tree [] dir exts excs X sens pats = Inr c \<and>
      visits = spec_visits X dir tree \<and>
      store_visits cwd fs dir exts excs sens pats [] visits = Inr c \<and>
      (\<forall>k \<in> set (dict_keys c). set (parent_dirs k) \<inter> set X = {}) \<and>
      (\<forall>(here, dirs, files) \<in> set visits.
          sorted dirs \<and> sorted files \<and> set dirs \<inter> set X = {} \<and>
          (\<exists>ds. here = foldl path_join dir ds \<and> list_all plain_name ds \<and>
                set ds \<inter> set X = {})) \<and>
      scan cwd fs (map (prune X) tree) c0 dir exts excs X sens pats = Inr (visits, c)"
proof -
  have e: "keys_outside X []" by (simp add: keys_outside_def dict_keys_def)
  from os_walk_scan [OF assms(1), of "[]" X tree "[]" fs dir exts excs sens pats] assms(2) e
  obtain visits c where w: "scan cwd fs tree c0 dir exts excs X sens pats = Inr (visits, c)"
    and k: "keys_outside X c" and v: "list_all (visit_sorted X) visits"
    and r: "list_all (\<lambda>v. \<exists>ds'. fst v = foldl path_join dir ds' \<and> list_all plain_name ds' \<and>
              list_all (\<lambda>d. d \<notin> set X) ds')
              visits"
    by (auto simp: scan_def dict_clear_def)
  have w0: "scan cwd fs tree [] dir exts excs X sens pats = Inr (visits, c)"
    using w by (simp add: scan_def dict_clear_def)
  have sp: "visits = spec_visits X dir tree \<and>
      store_visits cwd fs dir exts excs sens pats [] visits = Inr c"
    by (rule os_walk_spec_visits) (use w in \<open>simp add: scan_def dict_clear_def\<close>)
  have p: "scan cwd fs (map (prune X) tree) c0 dir exts excs X sens pats = Inr (visits, c)"
    using w os_walk_prune [of "scan_body cwd fs dir exts excs X sens pats" X dir tree "[]"]
      scan_body_dirs [of cwd fs dir exts excs X sens pats]
    by (simp add: scan_def dict_clear_def)
  have k': "\<forall>k \<in> set (dict_keys c). set (parent_dirs k) \<inter> set X = {}"
    using k by (auto simp: keys_outside_def list_all_iff)
  have v': "\<forall>(here, dirs, files) \<in> set visits.
          sorted dirs \<and> sorted files \<and> set dirs \<inter> set X = {} \<and>
          (\<exists>ds. here = foldl path_join dir ds \<and> list_all plain_name ds \<and>
                set ds \<inter> set X = {})"
  proof (clarify)
    fix here dirs files
    assume m: "(here, dirs, files) \<in> set visits"
    with v have "visit_sorted X (here, dirs, files)" by (simp add: list_all_iff)
    moreover from m r obtain ds where "here = foldl path_join dir ds"
      "list_all plain_name ds" "list_all (\<lambda>d. d \<notin> set X) ds"
      by (auto simp: list_all_iff)
    ultimately show "sorted dirs \<and> sorted files \<and> set dirs \<inter> set X = {} \<and>
          (\<exists>ds. here = foldl path_join dir ds \<and> list_all plain_name ds \<and>
                set ds \<inter> set X = {})"
      by (auto simp: visit_sorted_def list_all_iff)
  qed
  from sp have sp1: "visits = spec_visits X dir tree"
    and sp2: "store_visits cwd fs dir exts excs sens pats [] visits = Inr c"
    by blast+
  show ?thesis
  proof (intro exI [of _ visits] exI [of _ c] conjI)
    show "scan cwd fs tree c0 dir exts excs X sens pats = Inr (visits, c)" by (rule w)
    show "load_initial_cache cwd fs tree c0 dir exts excs X sens pats = Inr c"
      by (simp add: load_initial_cache_def w)
    show "load_initial_cache cwd fs tree [] dir exts excs X sens pats = Inr c"
      by (simp add: load_initial_cache_def w0)
    show "visits = spec_visits X dir tree" by (rule sp1)
    show "store_visits cwd fs dir exts excs sens pats [] visits = Inr c" by (rule sp2)
    show "\<forall>k \<in> set (dict_keys c). set (parent_dirs k) \<inter> set X = {}" by (rule k')
    show "\<forall>(here, dirs, files) \<in> set visits.
          sorted dirs \<and> sorted files \<and> set dirs \<inter> set X = {} \<and>
          (\<exists>ds. here = foldl path_join dir ds \<and> list_all plain_name ds \<and>
                set ds \<inter> set X = {})" by (rule v')
    show "scan cwd fs (map (prune X) tree) c0 dir exts excs X sens pats = Inr (visits, c)"
      by (rule p)
  qed
qed

lemma scan_example:
  "scan ''/home''
     (empty_disk(''/proj/a.js'' := Readable ''1'', ''/proj/b.js'' := Readable ''2'',
                 ''/proj/lib/m.js'' := Readable ''3'', ''/proj/src/d.js'' := Readable ''4'',
                 ''/proj/src/z.ts'' := Readable ''5'', ''/proj/test/t.js'' := Readable ''6''))
     [FileNode ''b.js'', FileNode ''a.js'', DirNode ''src'' [FileNode ''z.ts'', FileNode ''d.js''],
      DirNode ''test'' [FileNode ''t.js''], DirNode ''lib'' [FileNode ''m.js'']]
     [(''test/t.js'', ''old'')] ''/proj'' [''.js'', ''.ts''] [] [''test''] [] None
   = Inr ([(''/proj'', [''lib'', ''src''], [''a.js'', ''b.js'']),
           (''/proj/lib'', [], [''m.js'']),
           (''/proj/src'', [], [''d.js'', ''z.ts''])],
          [(''a.js'', ''1''), (''b.js'', ''2''), (''lib/m.js'', ''3''), (''src/d.js'', ''4''),
           (''src/z.ts'', ''5'')])"
  by (simp add: scan_def scan_body_def scan_file_def should_include_def path_defs Let_def
      read_and_store_file_def dict_set_def dict_clear_def empty_disk_def)

theorem load_initial_cache_prunes_witness:
  "startswith ''/home'' ''/'' \<and>
   list_all plain_node
     [FileNode ''b.js'', FileNode ''a.js'', DirNode ''src'' [FileNode ''z.ts'', FileNode ''d.js''],
      DirNode ''test'' [FileNode ''t.js''], DirNode ''lib'' [FileNode ''m.js'']] \<and>
   endswith ''t.js'' ''.js'' \<and>
   load_initial_cache ''/home''
     (empty_disk(''/proj/a.js'' := Readable ''1'', ''/proj/b.js'' := Readable ''2'',
                 ''/proj/lib/m.js'' := Readable ''3'', ''/proj/src/d.js'' := Readable ''4'',
                 ''/proj/src/z.ts'' := Readable ''5'', ''/proj/test/t.js'' := Readable ''6''))
     [FileNode ''b.js'', FileNode ''a.js'', DirNode ''src'' [FileNode ''z.ts'', FileNode ''d.js''],
      DirNode ''test'' [FileNode ''t.js''], DirNode ''lib'' [FileNode ''m.js'']]
     [(''test/t.js'', ''old'')] ''/proj'' [''.js'', ''.ts''] [] [''test''] [] None
   = Inr [(''a.js'', ''1''), (''b.js'', ''2''), (''lib/m.js'', ''3''), (''src/d.js'', ''4''),
          (''src/z.ts'', ''5'')] \<and>
   spec_visits [''test''] ''/proj''
     [FileNode ''b.js'', FileNode ''a.js'', DirNode ''src'' [FileNode ''z.ts'', FileNode ''d.js''],
      DirNode ''test'' [FileNode ''t.js''], DirNode ''lib'' [FileNode ''m.js'']]
   = [(''/proj'', [''lib'', ''src''], [''a.js'', ''b.js'']),
      (''/proj/lib'', [], [''m.js'']),
      (''/proj/src'', [], [''d.js'', ''z.ts''])] \<and>
   parent_dirs ''src/z.ts'' = [''src''] \<and>
   scan ''/home''
     (empty_disk(''/proj/a.js'' := Readable ''1'', ''/proj/b.js'' := Readable ''2'',
                 ''/proj/lib/m.js'' := Readable ''3'', ''/proj/src/d.js'' := Readable ''4'',
                 ''/proj/src/z.ts'' := Readable ''5'', ''/proj/test/t.js'' := Readable ''6''))
     (map (prune [''test''])
        [FileNode ''b.js'', FileNode ''a.js'', DirNode ''src'' [FileNode ''z.ts'', FileNode ''d.js''],
         DirNode ''test'' [FileNode ''t.js''], DirNode ''lib'' [FileNode ''m.js'']])
     [(''test/t.js'', ''old'')] ''/proj'' [''.js'', ''.ts''] [] [''test''] [] None
   = Inr ([(''/proj'', [''lib'', ''src''], [''a.js'', ''b.js'']),
           (''/proj/lib'', [], [''m.js'']),
           (''/proj/src'', [], [''d.js'', ''z.ts''])],
          [(''a.js'', ''1''), (''b.js'', ''2''), (''lib/m.js'', ''3''), (''src/d.js'', ''4''),
           (''src/z.ts'', ''5'')])"
proof -
  have h1: "startswith ''/home'' ''/''" by (simp add: startswith_def)
  have h2: "list_all plain_node
     [FileNode ''b.js'', FileNode ''a.js'', DirNode ''src'' [FileNode ''z.ts'', FileNode ''d.js''],
      DirNode ''test'' [FileNode ''t.js''], DirNode ''lib'' [FileNode ''m.js'']]"
    by (simp add: plain_name_def)
  have h3: "endswith ''t.js'' ''.js''" by (simp add: endswith_def)
  have h4: "parent_dirs ''src/z.ts'' = [''src'']" by (simp add: parent_dirs_def)
  show ?thesis
    using load_initial_cache_prunes [OF h1 h2,
        of "empty_disk(''/proj/a.js'' := Readable ''1'', ''/proj/b.js'' := Readable ''2'',
                 ''/proj/lib/m.js'' := Readable ''3'', ''/proj/src/d.js'' := Readable ''4'',
                 ''/proj/src/z.ts'' := Readable ''5'', ''/proj/test/t.js'' := Readable ''6'')"
           "[(''test/t.js'', ''old'')]"
           "''/proj''" "[''.js'', ''.ts'']" "[]" "[''test'']" "[]" None]
      h1 h2 h3 h4
    unfolding scan_example
    by (simp del: os_walk.simps spec_visits.simps)
qed

end
